theory Spec2Isabelle
  imports Main
begin

section \<open>The GIF89a writer of scripts/gifwriter.py\<close>

text \<open>
  A shallow embedding of \<^verbatim>\<open>lzw_encode\<close> and \<^verbatim>\<open>write_gif\<close>.
  Python integers are \<open>int\<close>; values that passed a range check, list lengths, codes
  and bits are \<open>nat\<close>. A \<^verbatim>\<open>bytes\<close> object is a list of naturals below 256.
  Every exception the two functions can raise is a value of \<open>py_error\<close>.
\<close>

subsection \<open>Errors\<close>

datatype py_error =
    ValueError_shift    \<comment> \<open>\<^verbatim>\<open>1 << min_bits\<close> with a negative count: ValueError\<close>
  | ValueError_byte     \<comment> \<open>\<^verbatim>\<open>bytes([v])\<close> or a bytearray store with v outside range(256): ValueError\<close>
  | KeyError            \<comment> \<open>\<^verbatim>\<open>table[prefix]\<close> on a missing key\<close>
  | IndexError          \<comment> \<open>\<^verbatim>\<open>frames[0][0]\<close> on an empty first frame\<close>
  | StructError         \<comment> \<open>\<^verbatim>\<open>struct.pack("<H", v)\<close> with v outside 0..65535: struct.error\<close>

subsection \<open>The LZW encoder\<close>

text \<open>
  The variables that \<^verbatim>\<open>lzw_encode\<close> and its two closures share. The dictionary
  \<^verbatim>\<open>table\<close> maps byte strings to codes.
\<close>

record enc_state =
  table :: "nat list \<rightharpoonup> nat"
  code_size :: nat
  next_code :: nat
  result :: "nat list"
  chunk_bits :: "nat list"
  prefix :: "nat list"

text \<open>\<^verbatim>\<open>max_code = 4095\<close>\<close>

definition max_code :: nat where
  "max_code = 4095"

text \<open>\<^verbatim>\<open>table = {bytes([i]): i for i in range(256)}\<close>\<close>

definition init_table :: "nat list \<rightharpoonup> nat" where
  "init_table = map_of (map (\<lambda>i. ([i], i)) [0..<256])"

text \<open>
  \<^verbatim>\<open>byte = sum((chunk_bits.pop(0) & 1) << i for i in range(8))\<close>, on the first eight
  bits of the buffer.
\<close>

definition byte_of :: "nat list \<Rightarrow> nat" where
  "byte_of bits = sum_list (map (\<lambda>i. (bits ! i mod 2) * 2 ^ i) [0..<8])"

text \<open>
  \<^verbatim>\<open>flush_bits\<close>: while at least eight bits are buffered, the first eight are popped
  and appended to \<^verbatim>\<open>result\<close> as one byte.
\<close>

function flush_bits :: "enc_state \<Rightarrow> enc_state" where
  "flush_bits s =
     (if 8 \<le> length (chunk_bits s)
      then flush_bits (s\<lparr>result := result s @ [byte_of (take 8 (chunk_bits s))],
                          chunk_bits := drop 8 (chunk_bits s)\<rparr>)
      else s)"
  by pat_completeness auto
termination
  by (relation "measure (\<lambda>s. length (chunk_bits s))") auto

declare flush_bits.simps [simp del]

text \<open>The bits \<^verbatim>\<open>(c >> b) & 1 for b in range(w)\<close> of a code, lowest first.\<close>

definition code_bits :: "nat \<Rightarrow> nat \<Rightarrow> nat list" where
  "code_bits w c = map (\<lambda>b. (c div 2 ^ b) mod 2) [0..<w]"

text \<open>\<^verbatim>\<open>write_code(c)\<close>: append \<^verbatim>\<open>code_size\<close> bits of c, then flush.\<close>

definition write_code :: "nat \<Rightarrow> enc_state \<Rightarrow> enc_state" where
  "write_code c s = flush_bits (s\<lparr>chunk_bits := chunk_bits s @ code_bits (code_size s) c\<rparr>)"

text \<open>
  The table growth of lines 43 to 47, after the code of the prefix has been written:
  \<^verbatim>\<open>
  if next_code <= max_code:
      table[new_prefix] = next_code
      next_code += 1
      if next_code > (1 << code_size):
          code_size = min(12, code_size + 1)
  \<close>
\<close>

definition grow_table :: "nat list \<Rightarrow> enc_state \<Rightarrow> enc_state" where
  "grow_table new_prefix s =
     (if next_code s \<le> max_code
      then (let s' = s\<lparr>table := (table s)(new_prefix \<mapsto> next_code s),
                         next_code := next_code s + 1\<rparr>
            in if 2 ^ code_size s' < next_code s'
               then s'\<lparr>code_size := min 12 (code_size s' + 1)\<rparr>
               else s')
      else s)"

text \<open>
  One iteration of \<^verbatim>\<open>for byte in data\<close>. \<^verbatim>\<open>bytes([byte])\<close> raises ValueError
  for a value outside range(256); \<^verbatim>\<open>table[prefix]\<close> raises KeyError on a missing key.
\<close>

definition encode_byte :: "enc_state \<Rightarrow> int \<Rightarrow> py_error + enc_state" where
  "encode_byte s byte =
     (if byte < 0 \<or> 256 \<le> byte then Inl ValueError_byte
      else (let new_prefix = prefix s @ [nat byte]
            in if table s new_prefix \<noteq> None
               then Inr (s\<lparr>prefix := new_prefix\<rparr>)
               else (case table s (prefix s) of
                       None \<Rightarrow> Inl KeyError
                     | Some c \<Rightarrow>
                         Inr ((grow_table new_prefix (write_code c s))\<lparr>prefix := [nat byte]\<rparr>))))"

fun encode_loop :: "enc_state \<Rightarrow> int list \<Rightarrow> py_error + enc_state" where
  "encode_loop s [] = Inr s"
| "encode_loop s (byte # data) =
     (case encode_byte s byte of
        Inl e \<Rightarrow> Inl e
      | Inr s' \<Rightarrow> encode_loop s' data)"

text \<open>The state before the first \<^verbatim>\<open>write_code\<close> (lines 10 to 20).\<close>

definition init_state :: "nat \<Rightarrow> enc_state" where
  "init_state min_bits =
     \<lparr>table = init_table, code_size = min_bits + 1, next_code = 2 ^ min_bits + 1 + 1,
      result = [], chunk_bits = [], prefix = []\<rparr>"

text \<open>The state at loop entry, after \<^verbatim>\<open>write_code(clear_code)\<close>.\<close>

definition start_state :: "nat \<Rightarrow> enc_state" where
  "start_state min_bits = write_code (2 ^ min_bits) (init_state min_bits)"

text \<open>\<^verbatim>\<open>if prefix: write_code(table[prefix])\<close>\<close>

definition write_pending :: "enc_state \<Rightarrow> py_error + enc_state" where
  "write_pending s =
     (if prefix s \<noteq> []
      then (case table s (prefix s) of
              None \<Rightarrow> Inl KeyError
            | Some c \<Rightarrow> Inr (write_code c s))
      else Inr s)"

text \<open>
  \<^verbatim>\<open>
  if chunk_bits:
      while len(chunk_bits) < 8:
          chunk_bits.append(0)
      flush_bits()
  \<close>
\<close>

definition pad_flush :: "enc_state \<Rightarrow> enc_state" where
  "pad_flush s =
     (if chunk_bits s \<noteq> []
      then flush_bits (s\<lparr>chunk_bits := chunk_bits s @ replicate (8 - length (chunk_bits s)) 0\<rparr>)
      else s)"

text \<open>
  \<^verbatim>\<open>lzw_encode(data, min_bits)\<close>. A negative \<^verbatim>\<open>min_bits\<close> raises at
  \<^verbatim>\<open>1 << min_bits\<close>. Every element of \<^verbatim>\<open>result\<close> is a sum of eight bits weighted
  by powers of two, so the closing \<^verbatim>\<open>bytes(result)\<close> does not raise (lemma
  \<open>flush_bits_bytes\<close> below).
\<close>

definition lzw_encode :: "int list \<Rightarrow> int \<Rightarrow> py_error + nat list" where
  "lzw_encode data min_bits =
     (if min_bits < 0 then Inl ValueError_shift
      else (let end_code = 2 ^ nat min_bits + 1
            in case encode_loop (start_state (nat min_bits)) data of
                 Inl e \<Rightarrow> Inl e
               | Inr s \<Rightarrow>
                   (case write_pending s of
                      Inl e \<Rightarrow> Inl e
                    | Inr s' \<Rightarrow> Inr (result (pad_flush (write_code end_code s'))))))"

subsection \<open>The container writer\<close>

text \<open>\<^verbatim>\<open>struct.pack("<H...", v, ...)\<close>: each value as two bytes, low byte first;
  struct.error for a value outside 0..65535.\<close>

fun struct_pack_H :: "int list \<Rightarrow> py_error + nat list" where
  "struct_pack_H [] = Inr []"
| "struct_pack_H (v # vs) =
     (if v < 0 \<or> 65535 < v then Inl StructError
      else (case struct_pack_H vs of
              Inl e \<Rightarrow> Inl e
            | Inr bs \<Rightarrow> Inr (nat v mod 256 # nat v div 256 # bs)))"

text \<open>\<^verbatim>\<open>bytes([v, ...])\<close>: ValueError for a value outside range(256).\<close>

fun py_bytes :: "int list \<Rightarrow> py_error + nat list" where
  "py_bytes [] = Inr []"
| "py_bytes (v # vs) =
     (if v < 0 \<or> 255 < v then Inl ValueError_byte
      else (case py_bytes vs of
              Inl e \<Rightarrow> Inl e
            | Inr bs \<Rightarrow> Inr (nat v # bs)))"

text \<open>
  \<^verbatim>\<open>
  for i, c in enumerate(palette[:256]):
      pal_bytes[i * 3 : i * 3 + 3] = c[0], c[1], c[2]
  \<close>
  A palette entry is a triple of integers. Storing a value outside range(256) into a
  bytearray raises ValueError.
\<close>

fun pal_loop :: "nat \<Rightarrow> (int \<times> int \<times> int) list \<Rightarrow> nat list \<Rightarrow> py_error + nat list" where
  "pal_loop i [] pal_bytes = Inr pal_bytes"
| "pal_loop i ((r, g, b) # cs) pal_bytes =
     (if r < 0 \<or> 255 < r \<or> g < 0 \<or> 255 < g \<or> b < 0 \<or> 255 < b then Inl ValueError_byte
      else pal_loop (i + 1) cs
             (take (i * 3) pal_bytes @ [nat r, nat g, nat b] @ drop (i * 3 + 3) pal_bytes))"

definition build_pal_bytes :: "(int \<times> int \<times> int) list \<Rightarrow> py_error + nat list" where
  "build_pal_bytes palette = pal_loop 0 (take 256 palette) (replicate 768 0)"

text \<open>
  \<^verbatim>\<open>
  pos = 0
  while pos < len(compressed):
      block_len = min(255, len(compressed) - pos)
      f.write(bytes([block_len]))
      f.write(compressed[pos : pos + block_len])
      pos += block_len
  \<close>
  The file \<open>f\<close> is the list of the bytes written so far.
\<close>

function write_subblocks :: "nat list \<Rightarrow> nat \<Rightarrow> nat list \<Rightarrow> nat list" where
  "write_subblocks compressed pos f =
     (if pos < length compressed
      then (let block_len = min 255 (length compressed - pos)
            in write_subblocks compressed (pos + block_len)
                 (f @ [block_len] @ take block_len (drop pos compressed)))
      else f)"
  by pat_completeness auto
termination
  by (relation "measure (\<lambda>(compressed, pos, f). length compressed - pos)") auto

declare write_subblocks.simps [simp del]

text \<open>
  The body of \<^verbatim>\<open>for idx, frame in enumerate(frames)\<close> (lines 88 to 108). The result
  pairs the exception raised, if any, with the file as the iteration leaves it.
\<close>

definition write_frame ::
    "nat \<Rightarrow> nat \<Rightarrow> int \<Rightarrow> int \<Rightarrow> nat list \<Rightarrow> int list list \<Rightarrow> py_error option \<times> nat list" where
  "write_frame W H duration_ms transparent_index f frame =
     (let f1 = f @ [0x21, 0xF9, 0x04, 0x02]
      in case struct_pack_H [duration_ms] of
           Inl e \<Rightarrow> (Some e, f1)
         | Inr d \<Rightarrow>
        (let f2 = f1 @ d
         in case py_bytes [transparent_index, 0] of
              Inl e \<Rightarrow> (Some e, f2)
            | Inr t \<Rightarrow>
           (let f3 = f2 @ t @ [0x2C]
            in case struct_pack_H [0, 0, int W, int H, 0] of
                 Inl e \<Rightarrow> (Some e, f3)
               | Inr d \<Rightarrow>
              (let flat = concat frame;
                   f4 = f3 @ d @ [8]
               in case lzw_encode flat 8 of
                    Inl e \<Rightarrow> (Some e, f4)
                  | Inr compressed \<Rightarrow> (None, write_subblocks compressed 0 f4 @ [0])))))"

fun write_frames ::
    "nat \<Rightarrow> nat \<Rightarrow> int \<Rightarrow> int \<Rightarrow> nat list \<Rightarrow> int list list list \<Rightarrow> py_error option \<times> nat list" where
  "write_frames W H duration_ms transparent_index f [] = (None, f)"
| "write_frames W H duration_ms transparent_index f (frame # frames) =
     (case write_frame W H duration_ms transparent_index f frame of
        (Some e, f') \<Rightarrow> (Some e, f')
      | (None, f') \<Rightarrow> write_frames W H duration_ms transparent_index f' frames)"

text \<open>\<^verbatim>\<open>b"GIF89a"\<close>\<close>

definition gif_signature :: "nat list" where
  "gif_signature = [71, 73, 70, 56, 57, 97]"

text \<open>\<^verbatim>\<open>b"\x21\xFF\x0BNETSCAPE2.0\x03\x01\x00\x00\x00"\<close>\<close>

definition netscape_ext :: "nat list" where
  "netscape_ext = [0x21, 0xFF, 0x0B, 78, 69, 84, 83, 67, 65, 80, 69, 50, 46, 48,
                   0x03, 0x01, 0x00, 0x00, 0x00]"

text \<open>
  The body of \<^verbatim>\<open>with open(filepath, "wb") as f\<close> (lines 75 to 109), from the empty
  file that opening in mode "wb" leaves.
\<close>

definition write_body ::
    "nat \<Rightarrow> nat \<Rightarrow> nat list \<Rightarrow> int \<Rightarrow> int \<Rightarrow> int list list list \<Rightarrow> py_error option \<times> nat list" where
  "write_body W H pal_bytes duration_ms transparent_index frames =
     (let f1 = gif_signature
      in case struct_pack_H [int W, int H] of
           Inl e \<Rightarrow> (Some e, f1)
         | Inr d \<Rightarrow>
        (let f2 = f1 @ d @ [0xF7, 0, 0] @ pal_bytes @ netscape_ext
         in case write_frames W H duration_ms transparent_index f2 frames of
              (Some e, f3) \<Rightarrow> (Some e, f3)
            | (None, f3) \<Rightarrow> (None, f3 @ [59])))"

text \<open>
  \<^verbatim>\<open>write_gif(frames, palette, filepath, duration_ms, transparent_index)\<close>. The result
  pairs the exception that escapes, if any, with the sink: \<open>None\<close> when the file was
  never opened (so whatever was at \<^verbatim>\<open>filepath\<close> is untouched), \<open>Some f\<close> when it
  was opened, with the bytes \<open>f\<close> that it holds when the \<^verbatim>\<open>with\<close> block closes it.
  A frame is a list of rows of integers. Opening the file is taken to succeed; the path
  plays no other part.
\<close>

definition write_gif ::
    "int list list list \<Rightarrow> (int \<times> int \<times> int) list \<Rightarrow> int \<Rightarrow> int
       \<Rightarrow> py_error option \<times> nat list option" where
  "write_gif frames palette duration_ms transparent_index =
     (case frames of
        [] \<Rightarrow> (None, None)
      | frame0 # _ \<Rightarrow>
          (case frame0 of
             [] \<Rightarrow> (Some IndexError, None)
           | row0 # _ \<Rightarrow>
               (let H = length frame0; W = length row0
                in case build_pal_bytes palette of
                     Inl e \<Rightarrow> (Some e, None)
                   | Inr pal_bytes \<Rightarrow>
                       (case write_body W H pal_bytes duration_ms transparent_index frames of
                          (e, f) \<Rightarrow> (e, Some f)))))"

subsection \<open>Notions used in the statements\<close>

text \<open>A byte string as a bit string, every byte lowest bit first.\<close>

definition bits_of_bytes :: "nat list \<Rightarrow> nat list" where
  "bits_of_bytes bs = concat (map (code_bits 8) bs)"

text \<open>The bits written so far: those of the finished bytes, then those still buffered.\<close>

definition stream :: "enc_state \<Rightarrow> nat list" where
  "stream s = bits_of_bytes (result s) @ chunk_bits s"

text \<open>What a state carries between two iterations of the loop.\<close>

definition bits_ok :: "enc_state \<Rightarrow> bool" where
  "bits_ok s = (list_all (\<lambda>b. b < 2) (chunk_bits s) \<and> length (chunk_bits s) < 8
                 \<and> list_all (\<lambda>b. b < 256) (result s))"

text \<open>The codes that one iteration, and the whole loop, hand to \<^verbatim>\<open>write_code\<close>, each with
  the width it is written at.\<close>

definition step_codes :: "enc_state \<Rightarrow> int \<Rightarrow> (nat \<times> nat) list" where
  "step_codes s byte =
     (if table s (prefix s @ [nat byte]) \<noteq> None then []
      else (case table s (prefix s) of None \<Rightarrow> [] | Some c \<Rightarrow> [(code_size s, c)]))"

fun loop_codes :: "enc_state \<Rightarrow> int list \<Rightarrow> (nat \<times> nat) list" where
  "loop_codes s [] = []"
| "loop_codes s (byte # data) =
     (case encode_byte s byte of
        Inl e \<Rightarrow> []
      | Inr s' \<Rightarrow> step_codes s byte @ loop_codes s' data)"

text \<open>The bits of a sequence of (width, code) pairs, each code lowest bit first.\<close>

definition codes_bits :: "(nat \<times> nat) list \<Rightarrow> nat list" where
  "codes_bits cs = concat (map (\<lambda>(w, c). code_bits w c) cs)"

text \<open>The code that \<^verbatim>\<open>if prefix: write_code(table[prefix])\<close> writes after the loop, if any.\<close>

definition pending_codes :: "enc_state \<Rightarrow> (nat \<times> nat) list" where
  "pending_codes s =
     (if prefix s \<noteq> []
      then (case table s (prefix s) of None \<Rightarrow> [] | Some c \<Rightarrow> [(code_size s, c)])
      else [])"

text \<open>Why \<^verbatim>\<open>table[prefix]\<close> never raises: every single byte is a key, and so is the
  prefix unless it is empty.\<close>

definition keys_ok :: "enc_state \<Rightarrow> bool" where
  "keys_ok s = ((\<forall>b<256. table s [b] \<noteq> None) \<and> (prefix s = [] \<or> table s (prefix s) \<noteq> None))"

text \<open>The invariant of the table, the next code and the code width for \<open>min_bits = mb\<close>:
  the table holds the 256 single bytes and one entry for each code from \<open>2 ^ mb + 2\<close>
  up to \<open>next_code\<close>, which is at most 4096.\<close>

definition table_inv :: "nat \<Rightarrow> enc_state \<Rightarrow> bool" where
  "table_inv mb s =
     (finite (dom (table s))
      \<and> card (dom (table s)) + (2 ^ mb + 2) = 256 + next_code s
      \<and> 2 ^ mb + 2 \<le> next_code s \<and> next_code s \<le> 4096
      \<and> mb + 1 \<le> code_size s \<and> code_size s \<le> 12
      \<and> (\<forall>k c. table s k = Some c \<longrightarrow> c < 256 \<or> (2 ^ mb + 2 \<le> c \<and> c < next_code s)))"

text \<open>A 16-bit value as two bytes, low byte first.\<close>

definition le16 :: "nat \<Rightarrow> nat list" where
  "le16 n = [n mod 256, n div 256]"

text \<open>The payload cut into pieces of 255 bytes, the last one shorter when the length is not
  a multiple of 255; no piece is empty.\<close>

function chunks255 :: "nat list \<Rightarrow> nat list list" where
  "chunks255 xs = (if xs = [] then [] else take 255 xs # chunks255 (drop 255 xs))"
  by pat_completeness auto
termination
  by (relation "measure length") auto

declare chunks255.simps [simp del]

text \<open>Each piece behind its own length byte.\<close>

definition sub_blocks :: "nat list \<Rightarrow> nat list" where
  "sub_blocks compressed = concat (map (\<lambda>b. length b # b) (chunks255 compressed))"

text \<open>What one frame writes before its image data: the graphic control extension, the
  image descriptor as \<^verbatim>\<open>struct.pack("<HHHHH", 0, 0, W, H, 0)\<close> lays it out, and the LZW
  minimum code size.\<close>

definition frame_head :: "nat \<Rightarrow> nat \<Rightarrow> int \<Rightarrow> int \<Rightarrow> nat list" where
  "frame_head W H duration_ms transparent_index =
     [0x21, 0xF9, 0x04, 0x02] @ le16 (nat duration_ms) @ [nat transparent_index, 0]
     @ [0x2C] @ le16 0 @ le16 0 @ le16 W @ le16 H @ le16 0 @ [8]"

text \<open>All that one frame writes, given its compressed pixels.\<close>

definition frame_block :: "nat \<Rightarrow> nat \<Rightarrow> int \<Rightarrow> int \<Rightarrow> nat list \<Rightarrow> nat list" where
  "frame_block W H duration_ms transparent_index compressed =
     frame_head W H duration_ms transparent_index @ sub_blocks compressed @ [0]"

text \<open>What is written before the first frame.\<close>

definition gif_preamble :: "nat \<Rightarrow> nat \<Rightarrow> nat list \<Rightarrow> nat list" where
  "gif_preamble W H pal_bytes =
     gif_signature @ le16 W @ le16 H @ [0xF7, 0, 0] @ pal_bytes @ netscape_ext"

text \<open>The arguments that \<^verbatim>\<open>struct.pack("<H", v)\<close> and \<^verbatim>\<open>bytes([v])\<close> accept.\<close>

definition u16 :: "int \<Rightarrow> bool" where
  "u16 v = (0 \<le> v \<and> v \<le> 65535)"

definition u8 :: "int \<Rightarrow> bool" where
  "u8 v = (0 \<le> v \<and> v \<le> 255)"

text \<open>The frames paired with their compressed pixel streams.\<close>

definition compressed_as :: "int list list list \<Rightarrow> nat list list \<Rightarrow> bool" where
  "compressed_as frames comps =
     list_all2 (\<lambda>frame c. lzw_encode (concat frame) 8 = Inr c) frames comps"

text \<open>A frame all of whose pixels are byte values.\<close>

definition pixels_ok :: "int list list \<Rightarrow> bool" where
  "pixels_ok frame = list_all (list_all (\<lambda>p. 0 \<le> p \<and> p < 256)) frame"

text \<open>A palette entry all of whose channels are byte values, and its three bytes.\<close>

definition rgb_ok :: "int \<times> int \<times> int \<Rightarrow> bool" where
  "rgb_ok c = (case c of (r, g, b) \<Rightarrow> u8 r \<and> u8 g \<and> u8 b)"

definition rgb_bytes :: "int \<times> int \<times> int \<Rightarrow> nat list" where
  "rgb_bytes c = (case c of (r, g, b) \<Rightarrow> [nat r, nat g, nat b])"

text \<open>The fields of the packed byte of a graphic control extension as GIF89a lays them
  out: bits 2 to 4 hold the disposal method, bit 0 the transparent colour flag.\<close>

definition gce_disposal :: "nat \<Rightarrow> nat" where
  "gce_disposal packed = (packed div 4) mod 8"

definition gce_transparent_flag :: "nat \<Rightarrow> nat" where
  "gce_transparent_flag packed = packed mod 2"

text \<open>The global colour table as the spec words it: three bytes for each of the first
  256 palette entries, zero-padded to 768 bytes.\<close>

definition color_table :: "(int \<times> int \<times> int) list \<Rightarrow> nat list" where
  "color_table palette =
     concat (map rgb_bytes (take 256 palette)) @ replicate (768 - 3 * length (take 256 palette)) 0"

section \<open>Properties\<close>

lemma code_bits_Suc: "code_bits (Suc n) c = (c mod 2) # code_bits n (c div 2)"
proof -
  have "[0..<Suc n] = 0 # map Suc [0..<n]"
    by (simp add: upt_conv_Cons map_Suc_upt del: upt_Suc)
  then show ?thesis
    by (simp add: code_bits_def div_mult2_eq del: upt_Suc)
qed

lemma code_bits_0: "code_bits 0 c = []"
  by (simp add: code_bits_def)

lemma length_code_bits: "length (code_bits w c) = w"
  by (simp add: code_bits_def)

lemma code_bits_lt2: "b \<in> set (code_bits w c) \<Longrightarrow> b < 2"
  by (auto simp: code_bits_def)

lemma code_bits_foldr:
  "code_bits (length bits) (foldr (\<lambda>b a. b mod 2 + 2 * a) bits 0) = map (\<lambda>b. b mod 2) bits"
  by (induction bits) (simp_all add: code_bits_0 code_bits_Suc)

lemma byte_of_foldr:
  assumes "length bits = 8"
  shows "byte_of bits = foldr (\<lambda>b a. b mod 2 + 2 * a) bits 0"
proof -
  from assms obtain a b c d e f g h where "bits = [a, b, c, d, e, f, g, h]"
    by (auto simp: length_Suc_conv eval_nat_numeral)
  then show ?thesis
    by (simp add: byte_of_def upt_rec)
qed

lemma code_bits_byte_of:
  "length bits = 8 \<Longrightarrow> code_bits 8 (byte_of bits) = map (\<lambda>b. b mod 2) bits"
  using code_bits_foldr [of bits] by (simp add: byte_of_foldr)

lemma bit_sum_lt: "sum_list (map (\<lambda>i. (f i mod 2) * 2 ^ i) [0..<n]) < (2::nat) ^ n"
proof (induction n)
  case 0
  show ?case by simp
next
  case (Suc n)
  let ?t = "f n mod 2 * 2 ^ n"
  have "?t \<le> 1 * 2 ^ n" by (rule mult_le_mono1) simp
  moreover have "sum_list (map (\<lambda>i. (f i mod 2) * 2 ^ i) [0..<Suc n])
                  = sum_list (map (\<lambda>i. (f i mod 2) * 2 ^ i) [0..<n]) + ?t"
    by simp
  moreover have "(2::nat) ^ Suc n = 2 ^ n + 2 ^ n" by simp
  ultimately show ?case using Suc by linarith
qed

lemma byte_of_lt: "byte_of bits < 256"
  using bit_sum_lt [of "\<lambda>i. bits ! i" 8] by (simp add: byte_of_def)

lemma flush_bits_fields [simp]:
  "table (flush_bits s) = table s" "code_size (flush_bits s) = code_size s"
  "next_code (flush_bits s) = next_code s" "prefix (flush_bits s) = prefix s"
  by (induction s rule: flush_bits.induct; subst flush_bits.simps; simp)+

lemma flush_bits_length: "length (chunk_bits (flush_bits s)) < 8"
  by (induction s rule: flush_bits.induct) (subst flush_bits.simps, simp)

lemma flush_bits_set: "set (chunk_bits (flush_bits s)) \<subseteq> set (chunk_bits s)"
proof (induction s rule: flush_bits.induct)
  case (1 s)
  show ?case
  proof (cases "8 \<le> length (chunk_bits s)")
    case True
    with 1 have "set (chunk_bits (flush_bits s)) \<subseteq> set (drop 8 (chunk_bits s))"
      by (subst flush_bits.simps) simp
    then show ?thesis using set_drop_subset by fastforce
  next
    case False
    then show ?thesis by (subst flush_bits.simps) simp
  qed
qed

lemma flush_bits_bytes:
  "\<forall>b\<in>set (result s). b < 256 \<Longrightarrow> \<forall>b\<in>set (result (flush_bits s)). b < 256"
  by (induction s rule: flush_bits.induct) (subst flush_bits.simps, simp add: byte_of_lt)

lemma bits_of_bytes_append: "bits_of_bytes (xs @ ys) = bits_of_bytes xs @ bits_of_bytes ys"
  by (simp add: bits_of_bytes_def)

lemma map_mod2_id: "\<forall>b\<in>set bits. b < (2::nat) \<Longrightarrow> map (\<lambda>b. b mod 2) bits = bits"
  by (induction bits) auto

lemma flush_bits_stream:
  "\<forall>b\<in>set (chunk_bits s). b < 2 \<Longrightarrow> stream (flush_bits s) = stream s"
proof (induction s rule: flush_bits.induct)
  case (1 s)
  show ?case
  proof (cases "8 \<le> length (chunk_bits s)")
    case True
    let ?s' = "s\<lparr>result := result s @ [byte_of (take 8 (chunk_bits s))],
                   chunk_bits := drop 8 (chunk_bits s)\<rparr>"
    have ok: "\<forall>b\<in>set (take 8 (chunk_bits s)). b < 2"
      using "1.prems" by (meson in_set_takeD)
    have "\<forall>b\<in>set (chunk_bits ?s'). b < 2"
      using "1.prems" by (auto dest: in_set_dropD)
    with 1 True have "stream (flush_bits ?s') = stream ?s'" by blast
    moreover have "flush_bits s = flush_bits ?s'"
      using True by (subst flush_bits.simps) simp
    moreover have "code_bits 8 (byte_of (take 8 (chunk_bits s))) = take 8 (chunk_bits s)"
      using True ok by (simp add: code_bits_byte_of map_mod2_id)
    then have "stream ?s' = stream s"
      by (simp add: stream_def bits_of_bytes_def)
    ultimately show ?thesis by simp
  next
    case False
    then show ?thesis by (subst flush_bits.simps) simp
  qed
qed

lemma write_code_fields [simp]:
  "table (write_code c s) = table s" "code_size (write_code c s) = code_size s"
  "next_code (write_code c s) = next_code s" "prefix (write_code c s) = prefix s"
  by (simp_all add: write_code_def)

lemma write_code_bits_ok: "bits_ok s \<Longrightarrow> bits_ok (write_code c s)"
  unfolding bits_ok_def write_code_def list_all_iff
  using flush_bits_set [of "s\<lparr>chunk_bits := chunk_bits s @ code_bits (code_size s) c\<rparr>"]
        flush_bits_bytes [of "s\<lparr>chunk_bits := chunk_bits s @ code_bits (code_size s) c\<rparr>"]
        flush_bits_length [of "s\<lparr>chunk_bits := chunk_bits s @ code_bits (code_size s) c\<rparr>"]
  by (auto dest: code_bits_lt2)

lemma write_code_stream:
  "bits_ok s \<Longrightarrow> stream (write_code c s) = stream s @ code_bits (code_size s) c"
  unfolding write_code_def
  by (subst flush_bits_stream) (auto simp: bits_ok_def list_all_iff stream_def dest: code_bits_lt2)

lemma codes_bits_simps [simp]:
  "codes_bits [] = []" "codes_bits ((w, c) # cs) = code_bits w c @ codes_bits cs"
  "codes_bits (xs @ ys) = codes_bits xs @ codes_bits ys"
  by (simp_all add: codes_bits_def)

lemma grow_table_bits [simp]:
  "result (grow_table k s) = result s" "chunk_bits (grow_table k s) = chunk_bits s"
  "prefix (grow_table k s) = prefix s"
  by (simp_all add: grow_table_def Let_def)

lemma bits_ok_cong:
  "result s' = result s \<Longrightarrow> chunk_bits s' = chunk_bits s \<Longrightarrow> bits_ok s' = bits_ok s"
  by (simp add: bits_ok_def)

lemma stream_cong:
  "result s' = result s \<Longrightarrow> chunk_bits s' = chunk_bits s \<Longrightarrow> stream s' = stream s"
  by (simp add: stream_def)

lemma encode_byte_hit:
  assumes "encode_byte s byte = Inr s'" "table s (prefix s @ [nat byte]) \<noteq> None"
  shows "s' = s\<lparr>prefix := prefix s @ [nat byte]\<rparr>"
proof -
  have "\<not> (byte < 0 \<or> 256 \<le> byte)"
    using assms(1) by (cases "byte < 0 \<or> 256 \<le> byte") (simp_all add: encode_byte_def)
  then have "encode_byte s byte = Inr (s\<lparr>prefix := prefix s @ [nat byte]\<rparr>)"
    using assms(2) by (simp add: encode_byte_def Let_def)
  with assms(1) show ?thesis by simp
qed

lemma encode_byte_miss:
  assumes "encode_byte s byte = Inr s'" "table s (prefix s @ [nat byte]) = None"
  shows "\<exists>c. table s (prefix s) = Some c \<and>
           s' = (grow_table (prefix s @ [nat byte]) (write_code c s))\<lparr>prefix := [nat byte]\<rparr>"
proof -
  have nb: "\<not> (byte < 0 \<or> 256 \<le> byte)"
    using assms(1) by (cases "byte < 0 \<or> 256 \<le> byte") (simp_all add: encode_byte_def)
  show ?thesis
  proof (cases "table s (prefix s)")
    case None
    with nb assms show ?thesis by (simp add: encode_byte_def Let_def)
  next
    case (Some c)
    with nb assms(2) have "encode_byte s byte =
        Inr ((grow_table (prefix s @ [nat byte]) (write_code c s))\<lparr>prefix := [nat byte]\<rparr>)"
      by (simp add: encode_byte_def Let_def)
    with assms(1) Some show ?thesis by simp
  qed
qed

lemma encode_byte_range: "encode_byte s byte = Inr s' \<Longrightarrow> 0 \<le> byte \<and> byte < 256"
  by (cases "byte < 0 \<or> 256 \<le> byte") (simp_all add: encode_byte_def)

lemma encode_byte_stream:
  assumes "encode_byte s byte = Inr s'" "bits_ok s"
  shows "bits_ok s' \<and> stream s' = stream s @ codes_bits (step_codes s byte)"
proof (cases "table s (prefix s @ [nat byte]) \<noteq> None")
  case True
  from encode_byte_hit [OF assms(1) True] assms(2) True show ?thesis
    by (simp add: step_codes_def bits_ok_def stream_def)
next
  case False
  then have F: "table s (prefix s @ [nat byte]) = None" by simp
  from encode_byte_miss [OF assms(1) F] obtain c where c: "table s (prefix s) = Some c"
    and s': "s' = (grow_table (prefix s @ [nat byte]) (write_code c s))\<lparr>prefix := [nat byte]\<rparr>"
    by blast
  have "bits_ok s' = bits_ok (write_code c s)"
    unfolding s' by (rule bits_ok_cong) simp_all
  moreover have "stream s' = stream (write_code c s)"
    unfolding s' by (rule stream_cong) simp_all
  ultimately have "bits_ok s' = bits_ok (write_code c s)" "stream s' = stream (write_code c s)"
    by simp_all
  with assms(2) F c show ?thesis
    by (simp add: step_codes_def write_code_bits_ok write_code_stream)
qed

lemma encode_loop_stream:
  "encode_loop s data = Inr s' \<Longrightarrow> bits_ok s \<Longrightarrow>
     bits_ok s' \<and> stream s' = stream s @ codes_bits (loop_codes s data)"
proof (induction data arbitrary: s)
  case Nil
  then show ?case by simp
next
  case (Cons byte data)
  then obtain s1 where s1: "encode_byte s byte = Inr s1" "encode_loop s1 data = Inr s'"
    by (auto split: sum.splits)
  from encode_byte_stream [OF s1(1) Cons.prems(2)] Cons.IH [OF s1(2)] s1(1)
  show ?case by simp
qed

lemma bits_ok_init: "bits_ok (init_state mb)"
  by (simp add: bits_ok_def init_state_def)

lemma stream_init: "stream (init_state mb) = []"
  by (simp add: stream_def init_state_def bits_of_bytes_def)

lemma start_state_stream:
  "bits_ok (start_state mb) \<and> stream (start_state mb) = code_bits (mb + 1) (2 ^ mb)"
  unfolding start_state_def
  using write_code_bits_ok [OF bits_ok_init, of "2 ^ mb" mb]
        write_code_stream [OF bits_ok_init, of "2 ^ mb" mb]
  by (simp add: stream_init) (simp add: init_state_def)

lemma write_pending_stream:
  assumes "write_pending s = Inr s'" "bits_ok s"
  shows "bits_ok s' \<and> stream s' = stream s @ codes_bits (pending_codes s)
           \<and> code_size s' = code_size s"
  using assms
  by (auto simp: write_pending_def pending_codes_def write_code_bits_ok write_code_stream
           split: if_splits option.splits)

lemma flush_bits_eight:
  assumes "length (chunk_bits s) = 8"
  shows "flush_bits s = s\<lparr>result := result s @ [byte_of (chunk_bits s)], chunk_bits := []\<rparr>"
proof -
  let ?s' = "s\<lparr>result := result s @ [byte_of (take 8 (chunk_bits s))],
                 chunk_bits := drop 8 (chunk_bits s)\<rparr>"
  have "flush_bits s = flush_bits ?s'"
    using assms by (subst flush_bits.simps) simp
  also have "\<dots> = ?s'"
    using assms by (subst flush_bits.simps) simp
  finally show ?thesis using assms by simp
qed

lemma pad_flush_stream:
  assumes "bits_ok s"
  shows "\<exists>pad < 8. bits_of_bytes (result (pad_flush s)) = stream s @ replicate pad 0
                  \<and> list_all (\<lambda>b. b < 256) (result (pad_flush s))"
proof (cases "chunk_bits s = []")
  case True
  with assms have "0 < (8::nat) \<and> bits_of_bytes (result (pad_flush s)) = stream s @ replicate 0 0
                  \<and> list_all (\<lambda>b. b < 256) (result (pad_flush s))"
    by (simp add: pad_flush_def stream_def bits_ok_def)
  then show ?thesis by (rule exI [of _ 0])
next
  case False
  let ?pad = "8 - length (chunk_bits s)"
  let ?s1 = "s\<lparr>chunk_bits := chunk_bits s @ replicate ?pad 0\<rparr>"
  have len: "length (chunk_bits s) < 8" using assms by (simp add: bits_ok_def)
  then have l8: "length (chunk_bits ?s1) = 8" by simp
  have ok: "\<forall>b\<in>set (chunk_bits ?s1). b < 2"
    using assms by (auto simp: bits_ok_def list_all_iff)
  have cb: "chunk_bits (flush_bits ?s1) = []"
    by (subst flush_bits_eight [OF l8]) simp
  have "stream (flush_bits ?s1) = stream ?s1"
    using ok by (rule flush_bits_stream)
  then have "bits_of_bytes (result (flush_bits ?s1)) = stream s @ replicate ?pad 0"
    using cb by (simp add: stream_def)
  moreover have "list_all (\<lambda>b. b < 256) (result (flush_bits ?s1))"
    using assms flush_bits_bytes [of ?s1] by (simp add: bits_ok_def list_all_iff)
  moreover have "?pad < 8" using False by (cases "chunk_bits s") auto
  moreover have "pad_flush s = flush_bits ?s1" using False by (simp add: pad_flush_def)
  ultimately have "?pad < 8 \<and> bits_of_bytes (result (pad_flush s)) = stream s @ replicate ?pad 0
                  \<and> list_all (\<lambda>b. b < 256) (result (pad_flush s))"
    by simp
  then show ?thesis by (rule exI [of _ ?pad])
qed

lemma map_of_singletons:
  "map_of (map (\<lambda>i. ([i], i)) xs) k =
     (case k of [b] \<Rightarrow> if b \<in> set xs then Some b else None | _ \<Rightarrow> None)"
  by (induction xs) (auto split: list.splits)

lemma init_table_single: "init_table [b] = (if b < 256 then Some b else None)"
  by (simp add: init_table_def map_of_singletons)

lemma init_table_Some: "init_table k = Some c \<Longrightarrow> k = [c] \<and> c < 256"
  by (auto simp: init_table_def map_of_singletons split: list.splits if_splits)

lemma init_table_Nil: "init_table [] = None"
  by (simp add: init_table_def map_of_singletons)

lemma grow_table_mono: "table s k \<noteq> None \<Longrightarrow> table (grow_table k' s) k \<noteq> None"
  by (simp add: grow_table_def Let_def)

lemma encode_byte_ok:
  assumes "0 \<le> byte" "byte < 256" "keys_ok s"
  shows "\<exists>s'. encode_byte s byte = Inr s' \<and> keys_ok s'"
proof (cases "table s (prefix s @ [nat byte]) \<noteq> None")
  case True
  with assms have "encode_byte s byte = Inr (s\<lparr>prefix := prefix s @ [nat byte]\<rparr>)"
    by (simp add: encode_byte_def Let_def)
  moreover have "keys_ok (s\<lparr>prefix := prefix s @ [nat byte]\<rparr>)"
    using assms(3) True by (simp add: keys_ok_def)
  ultimately show ?thesis by blast
next
  case False
  have nb: "nat byte < 256" using assms by simp
  with assms(3) have single: "table s [nat byte] \<noteq> None" by (simp add: keys_ok_def)
  with False have "prefix s \<noteq> []" by auto
  with assms(3) obtain c where c: "table s (prefix s) = Some c"
    by (auto simp: keys_ok_def)
  let ?s' = "(grow_table (prefix s @ [nat byte]) (write_code c s))\<lparr>prefix := [nat byte]\<rparr>"
  have "encode_byte s byte = Inr ?s'"
    using assms(1,2) False c by (simp add: encode_byte_def Let_def)
  moreover have "keys_ok ?s'"
    using assms(3) single by (simp add: keys_ok_def grow_table_mono)
  ultimately show ?thesis by blast
qed

lemma encode_loop_ok:
  "list_all (\<lambda>b. 0 \<le> b \<and> b < 256) data \<Longrightarrow> keys_ok s \<Longrightarrow>
     \<exists>s'. encode_loop s data = Inr s' \<and> keys_ok s'"
proof (induction data arbitrary: s)
  case Nil
  then show ?case by simp
next
  case (Cons byte data)
  then obtain s1 where s1: "encode_byte s byte = Inr s1" "keys_ok s1"
    using encode_byte_ok [of byte s] by auto
  with Cons.IH [of s1] Cons.prems show ?case by simp
qed

lemma encode_loop_bad:
  "\<not> list_all (\<lambda>b. 0 \<le> b \<and> b < 256) data \<Longrightarrow> keys_ok s \<Longrightarrow>
     encode_loop s data = Inl ValueError_byte"
proof (induction data arbitrary: s)
  case Nil
  then show ?case by simp
next
  case (Cons byte data)
  show ?case
  proof (cases "0 \<le> byte \<and> byte < 256")
    case True
    then obtain s1 where s1: "encode_byte s byte = Inr s1" "keys_ok s1"
      using encode_byte_ok [of byte s] Cons.prems(2) by auto
    with Cons.IH [of s1] Cons.prems True show ?thesis by simp
  next
    case False
    then have "encode_byte s byte = Inl ValueError_byte"
      by (auto simp: encode_byte_def)
    then show ?thesis by simp
  qed
qed

lemma keys_ok_start: "keys_ok (start_state mb)"
  by (simp add: keys_ok_def start_state_def) (simp add: init_state_def init_table_single)

lemma write_pending_ok: "keys_ok s \<Longrightarrow> \<exists>s'. write_pending s = Inr s'"
  by (auto simp: keys_ok_def write_pending_def)

lemma lzw_encode_ok:
  assumes "0 \<le> min_bits" "list_all (\<lambda>b. 0 \<le> b \<and> b < 256) data"
  shows "\<exists>out. lzw_encode data min_bits = Inr out"
proof -
  from encode_loop_ok [OF assms(2) keys_ok_start] obtain s
    where s: "encode_loop (start_state (nat min_bits)) data = Inr s" "keys_ok s" by blast
  from write_pending_ok [OF s(2)] obtain s' where "write_pending s = Inr s'" by blast
  with s(1) assms(1) show ?thesis by (simp add: lzw_encode_def)
qed

lemma lzw_encode_bad:
  assumes "0 \<le> min_bits" "\<not> list_all (\<lambda>b. 0 \<le> b \<and> b < 256) data"
  shows "lzw_encode data min_bits = Inl ValueError_byte"
  using encode_loop_bad [OF assms(2) keys_ok_start, of "nat min_bits"] assms(1)
  by (simp add: lzw_encode_def)

lemma encode_loop_append:
  "encode_loop s (xs @ ys) =
     (case encode_loop s xs of Inl e \<Rightarrow> Inl e | Inr s' \<Rightarrow> encode_loop s' ys)"
  by (induction xs arbitrary: s) (auto split: sum.splits)

lemma dom_init_table: "dom init_table = (\<lambda>b. [b]) ` {..<256}"
proof
  show "dom init_table \<subseteq> (\<lambda>b. [b]) ` {..<256}"
    by (auto dest: init_table_Some)
  show "(\<lambda>b. [b]) ` {..<256} \<subseteq> dom init_table"
    by (auto simp: init_table_single)
qed

lemma card_dom_init_table: "finite (dom init_table) \<and> card (dom init_table) = 256"
proof -
  have "inj_on (\<lambda>b::nat. [b]) {..<256}" by (simp add: inj_on_def)
  then show ?thesis by (simp add: dom_init_table card_image)
qed

lemma pow_le_2048: "mb \<le> 11 \<Longrightarrow> (2::nat) ^ mb \<le> 2048"
  using power_increasing [of mb 11 "2::nat"] by simp

lemma table_inv_start: "mb \<le> 11 \<Longrightarrow> table_inv mb (start_state mb)"
  using card_dom_init_table pow_le_2048 [of mb]
  by (auto simp: table_inv_def start_state_def init_state_def dest: init_table_Some)

lemma grow_table_inv:
  assumes "table_inv mb s" "table s k = None"
  shows "table_inv mb (grow_table k s) \<and> code_size s \<le> code_size (grow_table k s)"
proof (cases "next_code s \<le> max_code")
  case False
  with assms show ?thesis by (simp add: grow_table_def)
next
  case True
  let ?t = "(table s)(k \<mapsto> next_code s)"
  have fin: "finite (dom (table s))" using assms(1) by (simp add: table_inv_def)
  have knew: "k \<notin> dom (table s)" using assms(2) by (simp add: domIff)
  have card: "finite (dom ?t) \<and> card (dom ?t) = card (dom (table s)) + 1"
    using fin knew by simp
  have old: "\<And>k' c. table s k' = Some c \<Longrightarrow> c < 256 \<or> (2 ^ mb + 2 \<le> c \<and> c < next_code s)"
    and nc: "2 ^ mb + 2 \<le> next_code s"
    using assms(1) by (simp_all add: table_inv_def)
  have vals: "\<forall>k' c. ?t k' = Some c \<longrightarrow> c < 256 \<or> (2 ^ mb + 2 \<le> c \<and> c < next_code s + 1)"
  proof (intro allI impI)
    fix k' c
    assume h: "?t k' = Some c"
    show "c < 256 \<or> (2 ^ mb + 2 \<le> c \<and> c < next_code s + 1)"
    proof (cases "k' = k")
      case True
      with h nc show ?thesis by simp
    next
      case False
      with h have "table s k' = Some c" by simp
      from old [OF this] show ?thesis by auto
    qed
  qed
  have tab: "table (grow_table k s) = ?t" "next_code (grow_table k s) = next_code s + 1"
    using True by (simp_all add: grow_table_def Let_def)
  have cs: "code_size (grow_table k s) =
              (if 2 ^ code_size s < next_code s + 1 then min 12 (code_size s + 1) else code_size s)"
    using True by (simp add: grow_table_def Let_def)
  have bounds: "mb + 1 \<le> code_size s" "code_size s \<le> 12" "2 ^ mb + 2 \<le> next_code s"
    "card (dom (table s)) + (2 ^ mb + 2) = 256 + next_code s"
    using assms(1) by (simp_all add: table_inv_def)
  have "next_code s + 1 \<le> 4096" using True by (simp add: max_code_def)
  with card vals bounds show ?thesis
    unfolding table_inv_def tab cs by auto
qed

lemma encode_byte_inv:
  assumes "encode_byte s byte = Inr s'" "table_inv mb s"
  shows "table_inv mb s' \<and> code_size s \<le> code_size s'"
proof (cases "table s (prefix s @ [nat byte]) \<noteq> None")
  case True
  from encode_byte_hit [OF assms(1) True] assms(2) show ?thesis
    by (simp add: table_inv_def)
next
  case False
  then have F: "table s (prefix s @ [nat byte]) = None" by simp
  from encode_byte_miss [OF assms(1) F] obtain c
    where s': "s' = (grow_table (prefix s @ [nat byte]) (write_code c s))\<lparr>prefix := [nat byte]\<rparr>"
    by blast
  have "table_inv mb (write_code c s)" using assms(2) by (simp add: table_inv_def)
  moreover have "table (write_code c s) (prefix s @ [nat byte]) = None" using F by simp
  ultimately have "table_inv mb (grow_table (prefix s @ [nat byte]) (write_code c s))
      \<and> code_size (write_code c s) \<le> code_size (grow_table (prefix s @ [nat byte]) (write_code c s))"
    by (rule grow_table_inv)
  then show ?thesis unfolding s' by (simp add: table_inv_def)
qed

lemma encode_loop_inv:
  "encode_loop s data = Inr s' \<Longrightarrow> table_inv mb s \<Longrightarrow>
     table_inv mb s' \<and> code_size s \<le> code_size s'"
proof (induction data arbitrary: s)
  case Nil
  then show ?case by simp
next
  case (Cons byte data)
  then obtain s1 where s1: "encode_byte s byte = Inr s1" "encode_loop s1 data = Inr s'"
    by (auto split: sum.splits)
  from encode_byte_inv [OF s1(1) Cons.prems(2)] Cons.IH [OF s1(2)]
  show ?case by auto
qed

text \<open>
  Claim C4, amended to \<open>8 \<le> min_bits \<le> 11\<close>. Let \<open>s\<close> be the state after any number of
  loop iterations and \<open>s'\<close> any later state of the same pass. Then in \<open>s\<close> the table and
  the two reserved codes together are at most 4096 entries, the code width lies in
  \<open>[min_bits + 1, 12]\<close> and is at most the width in \<open>s'\<close>, and neither the clear code nor
  the end code is the code of a table entry.
\<close>

theorem lzw_table_invariants:
  assumes "8 \<le> mb" "mb \<le> 11"
    and "encode_loop (start_state mb) xs = Inr s" "encode_loop s ys = Inr s'"
  shows "finite (dom (table s)) \<and> card (dom (table s)) + 2 \<le> 4096
         \<and> mb + 1 \<le> code_size s \<and> code_size s \<le> 12 \<and> code_size s \<le> code_size s'
         \<and> 2 ^ mb \<notin> ran (table s) \<and> 2 ^ mb + 1 \<notin> ran (table s)"
proof -
  have inv: "table_inv mb s"
    using encode_loop_inv [OF assms(3) table_inv_start [OF assms(2)] ] by simp
  have mono: "code_size s \<le> code_size s'"
    using encode_loop_inv [OF assms(4) inv] by simp
  have "(2::nat) ^ 8 \<le> 2 ^ mb" using assms(1) by (rule power_increasing) simp
  then have big: "(256::nat) \<le> 2 ^ mb" by simp
  with inv have "card (dom (table s)) + 2 \<le> 4096" by (simp add: table_inv_def)
  moreover have "2 ^ mb \<notin> ran (table s)" "2 ^ mb + 1 \<notin> ran (table s)"
    using inv big by (force simp: table_inv_def ran_def)+
  ultimately show ?thesis using inv mono by (simp add: table_inv_def)
qed

text \<open>
  Claim C3. Whenever \<^verbatim>\<open>lzw_encode\<close> returns, the bits of its output bytes, each byte read
  lowest bit first, are exactly the bits of the codes it wrote, each code lowest bit first at
  the width current when it was written, followed by fewer than eight zero bits. The codes
  are: the clear code at \<open>min_bits + 1\<close> bits, the codes written by the loop, the code of the
  pending prefix if the prefix is not empty, and last the end code. Every output element is
  a byte, and when the loop ends fewer than eight bits are waiting in the buffer.
\<close>

theorem lzw_encode_bit_packing:
  assumes "lzw_encode data min_bits = Inr out"
  shows "\<exists>s pad. encode_loop (start_state (nat min_bits)) data = Inr s
           \<and> length (chunk_bits s) < 8 \<and> pad < 8
           \<and> bits_of_bytes out =
               codes_bits ((nat min_bits + 1, 2 ^ nat min_bits)
                             # loop_codes (start_state (nat min_bits)) data
                             @ pending_codes s
                             @ [(code_size s, 2 ^ nat min_bits + 1)])
               @ replicate pad 0
           \<and> list_all (\<lambda>b. b < 256) out"
proof -
  let ?mb = "nat min_bits"
  from assms have pos: "\<not> min_bits < 0"
    by (cases "min_bits < 0") (simp_all add: lzw_encode_def)
  from assms pos obtain s where s: "encode_loop (start_state ?mb) data = Inr s"
    by (cases "encode_loop (start_state ?mb) data") (simp_all add: lzw_encode_def)
  from assms pos s obtain s' where s': "write_pending s = Inr s'"
    by (cases "write_pending s") (simp_all add: lzw_encode_def)
  from assms pos s s' have out: "out = result (pad_flush (write_code (2 ^ ?mb + 1) s'))"
    by (simp add: lzw_encode_def)
  from start_state_stream [of ?mb] encode_loop_stream [OF s]
  have 1: "bits_ok s" "stream s = code_bits (?mb + 1) (2 ^ ?mb)
                         @ codes_bits (loop_codes (start_state ?mb) data)"
    by simp_all
  from write_pending_stream [OF s' 1(1)]
  have 2: "bits_ok s'" "stream s' = stream s @ codes_bits (pending_codes s)"
    "code_size s' = code_size s"
    by simp_all
  let ?s3 = "write_code (2 ^ ?mb + 1) s'"
  have 3: "bits_ok ?s3" "stream ?s3 = stream s' @ code_bits (code_size s) (2 ^ ?mb + 1)"
    using write_code_bits_ok [OF 2(1)] write_code_stream [OF 2(1)] 2(3) by simp_all
  from pad_flush_stream [OF 3(1)] obtain pad where pad: "pad < 8"
    "bits_of_bytes (result (pad_flush ?s3)) = stream ?s3 @ replicate pad 0"
    "list_all (\<lambda>b. b < 256) (result (pad_flush ?s3))"
    by blast
  have "bits_of_bytes out =
               codes_bits ((?mb + 1, 2 ^ ?mb) # loop_codes (start_state ?mb) data
                             @ pending_codes s @ [(code_size s, 2 ^ ?mb + 1)])
               @ replicate pad 0"
    unfolding out pad(2) 3(2) 2(2) 1(2) by simp
  moreover have "length (chunk_bits s) < 8" using 1(1) by (simp add: bits_ok_def)
  ultimately show ?thesis using s pad(1,3) out by blast
qed

text \<open>The encoding of the one-pixel input \<open>[0]\<close> is \<open>00 01 04 04\<close>.\<close>

theorem lzw_encode_bit_packing_witness:
  "lzw_encode [0] 8 = Inr [0, 1, 4, 4]
   \<and> (\<exists>s pad. encode_loop (start_state (nat 8)) [0] = Inr s
           \<and> length (chunk_bits s) < 8 \<and> pad < 8
           \<and> bits_of_bytes [0, 1, 4, 4] =
               codes_bits ((nat 8 + 1, 2 ^ nat 8)
                             # loop_codes (start_state (nat 8)) [0]
                             @ pending_codes s
                             @ [(code_size s, 2 ^ nat 8 + 1)])
               @ replicate pad 0
           \<and> list_all (\<lambda>b. b < 256) [0, 1, 4, 4 :: nat])"
proof -
  have h: "lzw_encode [0] 8 = Inr [0, 1, 4, 4]" by code_simp
  show ?thesis using h lzw_encode_bit_packing [OF h] by (rule conjI)
qed

text \<open>
  Claim C6, amended. The only check on an input value is the one \<^verbatim>\<open>bytes([byte])\<close> makes:
  a value outside \<open>[0, 256)\<close> raises ValueError, whatever \<open>min_bits\<close> is. So for
  \<open>min_bits \<ge> 8\<close> every value outside \<open>[0, 2 ^ min_bits)\<close> is rejected.
\<close>

theorem lzw_encode_rejects:
  "(0 \<le> min_bits \<and> (\<exists>b\<in>set data. b < 0 \<or> 256 \<le> b)
      \<longrightarrow> lzw_encode data min_bits = Inl ValueError_byte)
   \<and> (8 \<le> min_bits \<and> (\<exists>b\<in>set data. b < 0 \<or> 2 ^ nat min_bits \<le> b)
      \<longrightarrow> lzw_encode data min_bits = Inl ValueError_byte)"
proof (intro conjI impI)
  assume h: "0 \<le> min_bits \<and> (\<exists>b\<in>set data. b < 0 \<or> 256 \<le> b)"
  then obtain b where "b \<in> set data" "b < 0 \<or> 256 \<le> b" by blast
  then have "\<not> list_all (\<lambda>b. 0 \<le> b \<and> b < 256) data"
    unfolding list_all_iff by (intro notI) force
  with h show "lzw_encode data min_bits = Inl ValueError_byte"
    by (simp add: lzw_encode_bad)
next
  assume h: "8 \<le> min_bits \<and> (\<exists>b\<in>set data. b < 0 \<or> 2 ^ nat min_bits \<le> b)"
  then have "8 \<le> nat min_bits" by linarith
  then have "(2::int) ^ 8 \<le> 2 ^ nat min_bits"
    by (rule power_increasing) simp
  then have big: "(256::int) \<le> 2 ^ nat min_bits" by simp
  from h obtain b where "b \<in> set data" "b < 0 \<or> 2 ^ nat min_bits \<le> b" by blast
  with big have "b \<in> set data" "b < 0 \<or> 256 \<le> b" by auto
  then have "\<not> list_all (\<lambda>b. 0 \<le> b \<and> b < 256) data"
    unfolding list_all_iff by (intro notI) force
  with h show "lzw_encode data min_bits = Inl ValueError_byte"
    by (simp add: lzw_encode_bad)
qed

text \<open>The input \<open>[1, 300]\<close> at \<open>min_bits = 8\<close> is rejected.\<close>

theorem lzw_encode_rejects_witness:
  "(0::int) \<le> 8 \<and> (\<exists>b\<in>set [1, 300 :: int]. b < 0 \<or> 256 \<le> b)
   \<and> (8::int) \<le> 8 \<and> (\<exists>b\<in>set [1, 300 :: int]. b < 0 \<or> 2 ^ nat 8 \<le> b)
   \<and> lzw_encode [1, 300] 8 = Inl ValueError_byte"
  using lzw_encode_rejects [of 8 "[1, 300]"] by simp

text \<open>
  Claim C6 as stated fails below eight bits: at \<open>min_bits = 2\<close> the value 5 is outside
  \<open>[0, 4)\<close>, and it is encoded through the pre-seeded 256-entry table.
\<close>

theorem lzw_encode_accepts_counterexample:
  "\<not> (0 \<le> (5::int) \<and> (5::int) < 2 ^ 2) \<and> lzw_encode [5] 2 = Inr [108, 1]"
proof -
  have "lzw_encode [5] 2 = Inr [108, 1]" by code_simp
  then show ?thesis by simp
qed

text \<open>A pass over \<open>[1, 1, 1, 1, 2]\<close>, observed after three bytes and at the end.\<close>

theorem lzw_table_invariants_witness:
  "\<exists>s s'. (8::nat) \<le> 8 \<and> (8::nat) \<le> 11
     \<and> encode_loop (start_state 8) [1, 1, 1] = Inr s \<and> encode_loop s [1, 2] = Inr s'
     \<and> finite (dom (table s)) \<and> card (dom (table s)) + 2 \<le> 4096
     \<and> 8 + 1 \<le> code_size s \<and> code_size s \<le> 12 \<and> code_size s \<le> code_size s'
     \<and> 2 ^ 8 \<notin> ran (table s) \<and> 2 ^ 8 + 1 \<notin> ran (table s)"
proof -
  obtain s where s: "encode_loop (start_state 8) [1, 1, 1] = Inr s" and k: "keys_ok s"
    using encode_loop_ok [OF _ keys_ok_start, of "[1, 1, 1]" 8] by auto
  obtain s' where s': "encode_loop s [1, 2] = Inr s'"
    using encode_loop_ok [OF _ k, of "[1, 2]"] by auto
  have a: "(8::nat) \<le> 8" and b: "(8::nat) \<le> 11" by simp_all
  from lzw_table_invariants [OF a b s s'] s s' show ?thesis
    by - (rule exI [of _ s], rule exI [of _ s'], simp)
qed

text \<open>
  Claim C4 as stated fails outside that range: at \<open>min_bits = 2\<close> the clear code 4 is the
  code of the pre-seeded entry for the byte 4, and at \<open>min_bits = 12\<close> the width starts at 13.
\<close>

theorem lzw_table_counterexample:
  "table (start_state 2) [4] = Some (2 ^ 2) \<and> \<not> code_size (start_state 12) \<le> 12"
  by (simp add: start_state_def init_state_def init_table_single)

lemma struct_pack_H_eq:
  "struct_pack_H vs =
     (if list_all u16 vs then Inr (concat (map (\<lambda>v. le16 (nat v)) vs)) else Inl StructError)"
  by (induction vs) (auto simp: u16_def le16_def)

lemma py_bytes_eq:
  "py_bytes vs = (if list_all u8 vs then Inr (map nat vs) else Inl ValueError_byte)"
  by (induction vs) (auto simp: u8_def)

lemma chunks255_Nil [simp]: "chunks255 [] = []"
  by (subst chunks255.simps) simp

lemma chunks255_Cons: "xs \<noteq> [] \<Longrightarrow> chunks255 xs = take 255 xs # chunks255 (drop 255 xs)"
  by (subst chunks255.simps) simp

lemma concat_chunks255: "concat (chunks255 xs) = xs"
  by (induction xs rule: chunks255.induct) (subst chunks255.simps, simp)

lemma chunks255_sizes: "list_all (\<lambda>b. 0 < length b \<and> length b \<le> 255) (chunks255 xs)"
  by (induction xs rule: chunks255.induct) (subst chunks255.simps, simp)

lemma write_subblocks_eq:
  "pos \<le> length compressed \<Longrightarrow>
     write_subblocks compressed pos f = f @ sub_blocks (drop pos compressed)"
proof (induction compressed pos f rule: write_subblocks.induct)
  case (1 compressed pos f)
  show ?case
  proof (cases "pos < length compressed")
    case False
    with "1.prems" show ?thesis
      by (subst write_subblocks.simps) (simp add: sub_blocks_def)
  next
    case True
    let ?n = "min 255 (length compressed - pos)"
    have ne: "drop pos compressed \<noteq> []" using True by simp
    have tk: "take 255 (drop pos compressed) = take ?n (drop pos compressed)"
      by (simp add: min_def)
    have dr: "drop 255 (drop pos compressed) = drop (pos + ?n) compressed"
      using True by (simp add: min_def add.commute)
    have len: "length (take 255 (drop pos compressed)) = ?n" by (simp add: min.commute)
    have "write_subblocks compressed pos f =
            write_subblocks compressed (pos + ?n) (f @ [?n] @ take ?n (drop pos compressed))"
      using True by (subst write_subblocks.simps) (simp add: Let_def)
    also have "\<dots> = (f @ [?n] @ take ?n (drop pos compressed))
                     @ sub_blocks (drop (pos + ?n) compressed)"
      using True by (intro "1.IH") auto
    also have "\<dots> = f @ sub_blocks (drop pos compressed)"
      unfolding sub_blocks_def chunks255_Cons [OF ne] dr [symmetric] tk [symmetric]
      using len by simp
    finally show ?thesis .
  qed
qed

lemma write_frame_eq:
  "write_frame W H d t f frame =
     (if \<not> u16 d then (Some StructError, f @ [0x21, 0xF9, 0x04, 0x02])
      else if \<not> u8 t then (Some ValueError_byte, f @ [0x21, 0xF9, 0x04, 0x02] @ le16 (nat d))
      else if \<not> (W \<le> 65535 \<and> H \<le> 65535)
        then (Some StructError, f @ [0x21, 0xF9, 0x04, 0x02] @ le16 (nat d) @ [nat t, 0, 0x2C])
      else (case lzw_encode (concat frame) 8 of
              Inl e \<Rightarrow> (Some e, f @ frame_head W H d t)
            | Inr compressed \<Rightarrow> (None, f @ frame_block W H d t compressed)))"
  by (simp add: write_frame_def struct_pack_H_eq py_bytes_eq Let_def write_subblocks_eq
        frame_block_def frame_head_def u16_def u8_def split: sum.splits)

lemma write_frames_ok:
  assumes "u16 d" "u8 t" "W \<le> 65535" "H \<le> 65535"
  shows "compressed_as frames comps \<Longrightarrow>
     write_frames W H d t f frames = (None, f @ concat (map (frame_block W H d t) comps))"
  unfolding compressed_as_def
proof (induction frames comps arbitrary: f rule: list_all2_induct)
  case Nil
  show ?case by simp
next
  case (Cons frame frames c comps)
  have "write_frame W H d t f frame = (None, f @ frame_block W H d t c)"
    using assms Cons.hyps(1) by (simp add: write_frame_eq)
  with Cons.IH [of "f @ frame_block W H d t c"] show ?case by simp
qed

lemma write_frames_fail:
  assumes "u16 d" "u8 t" "W \<le> 65535" "H \<le> 65535"
    and "lzw_encode (concat bad) 8 = Inl e"
  shows "compressed_as good comps \<Longrightarrow>
     write_frames W H d t f (good @ bad # rest) =
       (Some e, f @ concat (map (frame_block W H d t) comps) @ frame_head W H d t)"
  unfolding compressed_as_def
proof (induction good comps arbitrary: f rule: list_all2_induct)
  case Nil
  have "write_frame W H d t f bad = (Some e, f @ frame_head W H d t)"
    using assms by (simp add: write_frame_eq)
  then show ?case by simp
next
  case (Cons frame frames c comps)
  have "write_frame W H d t f frame = (None, f @ frame_block W H d t c)"
    using assms Cons.hyps(1) by (simp add: write_frame_eq)
  with Cons.IH [of "f @ frame_block W H d t c"] show ?case by simp
qed

lemma write_frame_None:
  assumes "write_frame W H d t f frame = (None, f')"
  shows "u16 d \<and> u8 t \<and> W \<le> 65535 \<and> H \<le> 65535
         \<and> (\<exists>c. lzw_encode (concat frame) 8 = Inr c \<and> f' = f @ frame_block W H d t c)"
  using assms unfolding write_frame_eq
  by (auto split: if_splits sum.splits)

lemma write_frames_None:
  "write_frames W H d t f frames = (None, f') \<Longrightarrow>
     \<exists>comps. compressed_as frames comps \<and> f' = f @ concat (map (frame_block W H d t) comps)"
proof (induction frames arbitrary: f)
  case Nil
  then show ?case by (simp add: compressed_as_def)
next
  case (Cons frame frames)
  obtain e1 f1 where w: "write_frame W H d t f frame = (e1, f1)" by (cases "write_frame W H d t f frame")
  with Cons.prems have e1: "e1 = None" by (cases e1) simp_all
  with w Cons.prems have rest: "write_frames W H d t f1 frames = (None, f')" by simp
  from write_frame_None [OF w [unfolded e1] ] obtain c
    where c: "lzw_encode (concat frame) 8 = Inr c" "f1 = f @ frame_block W H d t c" by blast
  from Cons.IH [OF rest] obtain comps
    where comps: "compressed_as frames comps" "f' = f1 @ concat (map (frame_block W H d t) comps)"
    by blast
  have "compressed_as (frame # frames) (c # comps)"
    using c(1) comps(1) by (simp add: compressed_as_def)
  moreover have "f' = f @ concat (map (frame_block W H d t) (c # comps))"
    using c(2) comps(2) by simp
  ultimately show ?case by blast
qed

lemma write_frame_grows: "\<exists>r. snd (write_frame W H d t f frame) = f @ r"
  unfolding write_frame_eq by (simp split: sum.splits)

lemma write_frames_grows: "\<exists>r. snd (write_frames W H d t f frames) = f @ r"
proof (induction frames arbitrary: f)
  case Nil
  show ?case by simp
next
  case (Cons frame frames)
  obtain e1 f1 where w: "write_frame W H d t f frame = (e1, f1)" by (cases "write_frame W H d t f frame")
  from write_frame_grows [of W H d t f frame] w obtain r1 where r1: "f1 = f @ r1" by auto
  show ?case
  proof (cases e1)
    case (Some e)
    with w r1 show ?thesis by simp
  next
    case None
    from Cons.IH [of f1] obtain r where "snd (write_frames W H d t f1 frames) = f1 @ r" by blast
    with None w r1 show ?thesis by simp
  qed
qed

lemma write_body_eq:
  "write_body W H pal_bytes d t frames =
     (if \<not> (W \<le> 65535 \<and> H \<le> 65535) then (Some StructError, gif_signature)
      else (case write_frames W H d t (gif_preamble W H pal_bytes) frames of
              (Some e, f) \<Rightarrow> (Some e, f)
            | (None, f) \<Rightarrow> (None, f @ [59])))"
  by (simp add: write_body_def struct_pack_H_eq gif_preamble_def u16_def Let_def)

lemma write_gif_eq:
  "write_gif ((row0 # rows0) # rest) palette d t =
     (case build_pal_bytes palette of
        Inl e \<Rightarrow> (Some e, None)
      | Inr pal_bytes \<Rightarrow>
          (case write_body (length row0) (Suc (length rows0)) pal_bytes d t ((row0 # rows0) # rest) of
             (e, f) \<Rightarrow> (e, Some f)))"
  by (simp add: write_gif_def Let_def)

lemma pixels_ok_concat: "pixels_ok frame = list_all (\<lambda>b. 0 \<le> b \<and> b < 256) (concat frame)"
  by (induction frame) (simp_all add: pixels_ok_def)

lemma compressed_as_exists:
  "list_all pixels_ok frames \<Longrightarrow> \<exists>comps. compressed_as frames comps"
proof (induction frames)
  case Nil
  show ?case by (simp add: compressed_as_def)
next
  case (Cons frame frames)
  then obtain comps where comps: "compressed_as frames comps" by auto
  from Cons.prems have "list_all (\<lambda>b. 0 \<le> b \<and> b < 256) (concat frame)"
    by (simp add: pixels_ok_concat)
  from lzw_encode_ok [OF _ this, of 8] obtain c where "lzw_encode (concat frame) 8 = Inr c"
    by auto
  with comps have "compressed_as (frame # frames) (c # comps)" by (simp add: compressed_as_def)
  then show ?case by blast
qed

lemma first_bad_frame:
  assumes "\<not> list_all pixels_ok frames"
  shows "\<exists>good bad rest comps. frames = good @ bad # rest \<and> compressed_as good comps
           \<and> \<not> pixels_ok bad"
proof -
  from assms have "\<exists>x\<in>set frames. \<not> pixels_ok x" by (simp add: list_all_iff)
  from split_list_first_prop [OF this] obtain good bad rest
    where sp: "frames = good @ bad # rest" "\<not> pixels_ok bad" "\<forall>y\<in>set good. \<not> \<not> pixels_ok y"
    by blast
  then have "list_all pixels_ok good" by (simp add: list_all_iff)
  from compressed_as_exists [OF this] obtain comps where "compressed_as good comps" by blast
  with sp show ?thesis by blast
qed

lemma drop_3_plus: "drop (3 + k) (a # b # c # xs) = drop k xs"
  by (simp add: numeral_3_eq_3)

lemma pal_loop_eq:
  "length pal_bytes = 768 \<Longrightarrow> i + length cs \<le> 256 \<Longrightarrow>
     pal_loop i cs pal_bytes =
       (if list_all rgb_ok cs
        then Inr (take (3 * i) pal_bytes @ concat (map rgb_bytes cs)
                  @ drop (3 * i + 3 * length cs) pal_bytes)
        else Inl ValueError_byte)"
proof (induction cs arbitrary: i pal_bytes)
  case Nil
  then show ?case by simp
next
  case (Cons c cs)
  obtain r g b where c: "c = (r, g, b)" by (cases c)
  show ?case
  proof (cases "rgb_ok c")
    case False
    then show ?thesis by (auto simp: c rgb_ok_def u8_def)
  next
    case True
    let ?pb = "take (i * 3) pal_bytes @ [nat r, nat g, nat b] @ drop (i * 3 + 3) pal_bytes"
    have len: "length ?pb = 768" using Cons.prems by simp
    have step: "pal_loop i (c # cs) pal_bytes = pal_loop (i + 1) cs ?pb"
      using True by (auto simp: c rgb_ok_def u8_def)
    have tk: "take (3 * (i + 1)) ?pb = take (3 * i) pal_bytes @ [nat r, nat g, nat b]"
      using Cons.prems by (simp add: mult.commute)
    have dr: "drop (3 * (i + 1) + 3 * length cs) ?pb
                = drop (3 * i + 3 * length (c # cs)) pal_bytes"
      using Cons.prems by (simp add: mult.commute add.commute add.left_commute drop_3_plus)
    have "pal_loop (i + 1) cs ?pb =
            (if list_all rgb_ok cs
             then Inr (take (3 * (i + 1)) ?pb @ concat (map rgb_bytes cs)
                       @ drop (3 * (i + 1) + 3 * length cs) ?pb)
             else Inl ValueError_byte)"
      using Cons.prems by (intro Cons.IH [OF len]) simp
    moreover have "rgb_bytes c = [nat r, nat g, nat b]" by (simp add: c rgb_bytes_def)
    ultimately show ?thesis
      unfolding step tk dr using True by simp
  qed
qed

lemma build_pal_bytes_eq:
  "build_pal_bytes palette =
     (if list_all rgb_ok (take 256 palette)
      then Inr (concat (map rgb_bytes (take 256 palette))
                @ replicate (768 - 3 * length (take 256 palette)) 0)
      else Inl ValueError_byte)"
  unfolding build_pal_bytes_def
  by (subst pal_loop_eq) simp_all

lemma length_rgb_concat: "length (concat (map rgb_bytes cs)) = 3 * length cs"
  by (induction cs) (auto simp: rgb_bytes_def)

lemma build_pal_bytes_empty: "build_pal_bytes [] = Inr (replicate 768 0)"
  by (simp add: build_pal_bytes_eq)

lemma lzw_0: "lzw_encode [0] 8 = Inr [0, 1, 4, 4]"
  by code_simp

lemma lzw_1: "lzw_encode [1] 8 = Inr [0, 3, 4, 4]"
  by code_simp

lemma sub_blocks_small: "xs \<noteq> [] \<Longrightarrow> length xs \<le> 255 \<Longrightarrow> sub_blocks xs = length xs # xs"
  by (simp add: sub_blocks_def chunks255_Cons)

lemma write_body_starts: "take 6 (snd (write_body W H pal_bytes d t frames)) = gif_signature"
proof -
  obtain r where r: "snd (write_frames W H d t (gif_preamble W H pal_bytes) frames)
                       = gif_preamble W H pal_bytes @ r"
    using write_frames_grows by blast
  obtain e f where w: "write_frames W H d t (gif_preamble W H pal_bytes) frames = (e, f)"
    by (cases "write_frames W H d t (gif_preamble W H pal_bytes) frames")
  with r have f: "f = gif_preamble W H pal_bytes @ r" by simp
  have "take 6 (gif_preamble W H pal_bytes @ r) = gif_signature"
    "take 6 (gif_preamble W H pal_bytes @ r @ [59]) = gif_signature"
    by (simp_all add: gif_preamble_def gif_signature_def)
  with w f show ?thesis
    by (cases e) (simp_all add: write_body_eq gif_signature_def)
qed

lemma write_gif_run_0:
  "write_gif [ [ [0] ] ] [] 83 0 =
     (None, Some (gif_preamble 1 1 (replicate 768 0)
                  @ [0x21, 0xF9, 0x04, 0x02, 83, 0, 0, 0,
                     0x2C, 0, 0, 0, 0, 1, 0, 1, 0, 0, 0, 8, 4, 0, 1, 4, 4, 0]
                  @ [59]))"
  by (simp add: write_gif_eq build_pal_bytes_empty write_body_eq write_frame_eq lzw_0
        frame_block_def frame_head_def sub_blocks_small le16_def u16_def u8_def)

text \<open>
  Claim C1, which the code does not meet. Every iteration of the frame loop begins by
  writing \<^verbatim>\<open>21 F9 04 02\<close>, so the packed byte of every graphic control extension is
  \<open>0x02\<close>: disposal method 0 and transparent colour flag 0 (the bit that is set is the
  user input flag). The one-frame animation \<open>[ [ [0] ] ]\<close> shows it in a complete file.
\<close>

theorem gce_packed_byte_written:
  "take (length f + 4) (snd (write_frame W H d t f frame)) = f @ [0x21, 0xF9, 0x04, 0x02]
   \<and> gce_disposal 0x02 = 0 \<and> gce_transparent_flag 0x02 = 0
   \<and> write_gif [ [ [0] ] ] [] 83 0 =
       (None, Some (gif_preamble 1 1 (replicate 768 0)
                    @ [0x21, 0xF9, 0x04, 0x02, 83, 0, 0, 0,
                       0x2C, 0, 0, 0, 0, 1, 0, 1, 0, 0, 0, 8, 4, 0, 1, 4, 4, 0]
                    @ [59]))"
proof -
  have "take (length f + 4) (snd (write_frame W H d t f frame)) = f @ [0x21, 0xF9, 0x04, 0x02]"
    unfolding write_frame_eq
    by (simp add: frame_block_def frame_head_def split: sum.splits)
  then show ?thesis
    by (simp add: gce_disposal_def gce_transparent_flag_def write_gif_run_0)
qed

text \<open>
  Claim C2, which the code does not meet. The delay field is \<^verbatim>\<open>duration_ms\<close> itself,
  not converted to centiseconds: with \<^verbatim>\<open>duration_ms = 83\<close> both frames of a two-frame
  animation carry the delay bytes \<open>83, 0\<close>, that is 83 centiseconds, not 8.
\<close>

theorem gce_delay_written:
  "write_gif [ [ [0] ], [ [1] ] ] [] 83 0 =
     (None, Some (gif_preamble 1 1 (replicate 768 0)
                  @ [0x21, 0xF9, 0x04, 0x02, 83, 0, 0, 0,
                     0x2C, 0, 0, 0, 0, 1, 0, 1, 0, 0, 0, 8, 4, 0, 1, 4, 4, 0]
                  @ [0x21, 0xF9, 0x04, 0x02, 83, 0, 0, 0,
                     0x2C, 0, 0, 0, 0, 1, 0, 1, 0, 0, 0, 8, 4, 0, 3, 4, 4, 0]
                  @ [59]))"
  by (simp add: write_gif_eq build_pal_bytes_empty write_body_eq write_frame_eq lzw_0 lzw_1
        frame_block_def frame_head_def sub_blocks_small le16_def u16_def u8_def)

lemma write_subblocks_300:
  "write_subblocks (replicate 300 7) 0 [] = 255 # replicate 255 7 @ 45 # replicate 45 7"
  by (simp add: write_subblocks_eq sub_blocks_def chunks255_Cons)

lemma write_gif_None:
  assumes "write_gif frames palette d t = (None, Some bs)"
  shows "\<exists>pb comps. build_pal_bytes palette = Inr pb \<and> compressed_as frames comps
           \<and> bs = gif_preamble (length (hd (hd frames))) (length (hd frames)) pb
                  @ concat (map (frame_block (length (hd (hd frames))) (length (hd frames)) d t)
                              comps)
                  @ [59]"
proof -
  from assms obtain frame0 rest where fr: "frames = frame0 # rest"
    by (cases frames) (simp_all add: write_gif_def)
  from assms fr obtain row0 rows0 where f0: "frame0 = row0 # rows0"
    by (cases frame0) (simp_all add: write_gif_def)
  let ?W = "length row0" and ?H = "Suc (length rows0)"
  from assms obtain pb where pb: "build_pal_bytes palette = Inr pb"
    unfolding fr f0 write_gif_eq by (cases "build_pal_bytes palette") simp_all
  from assms pb have body: "write_body ?W ?H pb d t frames = (None, bs)"
    unfolding fr f0 write_gif_eq by (simp split: prod.splits)
  then have dims: "?W \<le> 65535 \<and> ?H \<le> 65535"
    unfolding write_body_eq by (simp split: if_splits)
  obtain e f where w: "write_frames ?W ?H d t (gif_preamble ?W ?H pb) frames = (e, f)"
    by (cases "write_frames ?W ?H d t (gif_preamble ?W ?H pb) frames")
  with body dims have e: "e = None" and bs: "bs = f @ [59]"
    unfolding write_body_eq by (cases e; simp)+
  from write_frames_None [OF w [unfolded e] ] obtain comps
    where c: "compressed_as frames comps"
      "f = gif_preamble ?W ?H pb @ concat (map (frame_block ?W ?H d t) comps)"
    by blast
  have "bs = gif_preamble (length (hd (hd frames))) (length (hd frames)) pb
                  @ concat (map (frame_block (length (hd (hd frames))) (length (hd frames)) d t)
                              comps)
                  @ [59]"
    using bs c(2) by (simp add: fr f0)
  with pb c(1) show ?thesis by blast
qed

text \<open>
  Claim C5. When \<^verbatim>\<open>write_gif\<close> completes, the file is the preamble, one block per frame
  and the trailer. Each block is the frame's head, then the frame's compressed stream
  cut into pieces, every piece behind its own length byte, then a single zero byte. The
  pieces of a stream concatenate to the stream, and each piece has between 1 and 255
  bytes, so the closing zero is the only zero-length sub-block.
\<close>

theorem write_gif_sub_blocks:
  assumes "write_gif frames palette d t = (None, Some bs)"
  shows "\<exists>W H pb comps. compressed_as frames comps
           \<and> bs = gif_preamble W H pb
                  @ concat (map (\<lambda>c. frame_head W H d t
                                       @ concat (map (\<lambda>b. length b # b) (chunks255 c))
                                       @ [0]) comps)
                  @ [59]
           \<and> list_all (\<lambda>c. concat (chunks255 c) = c
                            \<and> list_all (\<lambda>b. 0 < length b \<and> length b \<le> 255) (chunks255 c))
                comps"
proof -
  from write_gif_None [OF assms] obtain pb comps where
    h: "compressed_as frames comps"
       "bs = gif_preamble (length (hd (hd frames))) (length (hd frames)) pb
              @ concat (map (frame_block (length (hd (hd frames))) (length (hd frames)) d t)
                          comps)
              @ [59]"
    by blast
  have "list_all (\<lambda>c. concat (chunks255 c) = c
                     \<and> list_all (\<lambda>b. 0 < length b \<and> length b \<le> 255) (chunks255 c)) comps"
    using chunks255_sizes by (induction comps) (simp_all add: concat_chunks255)
  with h show ?thesis
    unfolding frame_block_def sub_blocks_def by blast
qed

text \<open>The one-frame animation \<open>[ [ [0] ] ]\<close>: its stream \<open>00 01 04 04\<close> is one sub-block.\<close>

theorem write_gif_sub_blocks_witness:
  "\<exists>W H pb comps. compressed_as [ [ [0] ] ] comps
           \<and> gif_preamble 1 1 (replicate 768 0)
                  @ [0x21, 0xF9, 0x04, 0x02, 83, 0, 0, 0,
                     0x2C, 0, 0, 0, 0, 1, 0, 1, 0, 0, 0, 8, 4, 0, 1, 4, 4, 0]
                  @ [59]
               = gif_preamble W H pb
                  @ concat (map (\<lambda>c. frame_head W H 83 0
                                       @ concat (map (\<lambda>b. length b # b) (chunks255 c))
                                       @ [0]) comps)
                  @ [59]
           \<and> list_all (\<lambda>c. concat (chunks255 c) = c
                            \<and> list_all (\<lambda>b. 0 < length b \<and> length b \<le> 255) (chunks255 c))
                comps"
  using write_gif_sub_blocks [OF write_gif_run_0] .

lemma write_gif_valid_eq:
  assumes "frames \<noteq> []" "hd frames \<noteq> []"
    and "length (hd (hd frames)) \<le> 65535" "length (hd frames) \<le> 65535"
    and "list_all rgb_ok (take 256 palette)"
  shows "\<exists>pb. build_pal_bytes palette = Inr pb \<and> length pb = 768
           \<and> write_gif frames palette d t =
               (case write_frames (length (hd (hd frames))) (length (hd frames)) d t
                       (gif_preamble (length (hd (hd frames))) (length (hd frames)) pb) frames of
                  (Some e, f) \<Rightarrow> (Some e, Some f)
                | (None, f) \<Rightarrow> (None, Some (f @ [59])))"
proof -
  from assms(1) obtain frame0 rest where fr: "frames = frame0 # rest" by (cases frames) auto
  from assms(2) fr obtain row0 rows0 where f0: "frame0 = row0 # rows0" by (cases frame0) auto
  let ?pb = "concat (map rgb_bytes (take 256 palette))
               @ replicate (768 - 3 * length (take 256 palette)) 0"
  have pb: "build_pal_bytes palette = Inr ?pb"
    using assms(5) by (simp add: build_pal_bytes_eq)
  have len: "length ?pb = 768" by (simp add: length_rgb_concat)
  have "write_gif frames palette d t =
               (case write_frames (length (hd (hd frames))) (length (hd frames)) d t
                       (gif_preamble (length (hd (hd frames))) (length (hd frames)) ?pb) frames of
                  (Some e, f) \<Rightarrow> (Some e, Some f)
                | (None, f) \<Rightarrow> (None, Some (f @ [59])))"
    using assms(3,4) unfolding fr f0 write_gif_eq pb
    by (simp add: write_body_eq split: prod.splits option.splits)
  with pb len show ?thesis by blast
qed

text \<open>
  Claim C10. The width and height are the lengths of the first row of the first frame and
  of the first frame. Whenever they fit in 16 bits, the palette entries read, the
  duration, the transparent index and the pixels are in range, \<^verbatim>\<open>write_gif\<close> succeeds,
  whatever the dimensions of the other frames are: those two numbers are in the screen
  descriptor and in the image descriptor of every frame, and every frame's block carries
  the encoding of all of its flattened pixels.
\<close>

theorem write_gif_first_frame_dimensions:
  assumes "frames \<noteq> []" "hd frames \<noteq> []"
    and "length (hd (hd frames)) \<le> 65535" "length (hd frames) \<le> 65535"
    and "list_all rgb_ok (take 256 palette)" "u16 d" "u8 t"
    and "list_all pixels_ok frames"
  shows "\<exists>pb comps. build_pal_bytes palette = Inr pb \<and> compressed_as frames comps
           \<and> write_gif frames palette d t =
               (None, Some (gif_preamble (length (hd (hd frames))) (length (hd frames)) pb
                            @ concat (map (frame_block (length (hd (hd frames)))
                                             (length (hd frames)) d t) comps)
                            @ [59]))"
proof -
  from write_gif_valid_eq [OF assms(1-5), of d t] obtain pb where
    pb: "build_pal_bytes palette = Inr pb" and
    eq: "write_gif frames palette d t =
               (case write_frames (length (hd (hd frames))) (length (hd frames)) d t
                       (gif_preamble (length (hd (hd frames))) (length (hd frames)) pb) frames of
                  (Some e, f) \<Rightarrow> (Some e, Some f)
                | (None, f) \<Rightarrow> (None, Some (f @ [59])))"
    by blast
  from compressed_as_exists [OF assms(8)] obtain comps where c: "compressed_as frames comps"
    by blast
  have "write_gif frames palette d t =
               (None, Some (gif_preamble (length (hd (hd frames))) (length (hd frames)) pb
                            @ concat (map (frame_block (length (hd (hd frames)))
                                             (length (hd frames)) d t) comps)
                            @ [59]))"
    unfolding eq using write_frames_ok [OF assms(6,7,3,4) c] by simp
  with pb c show ?thesis by blast
qed

text \<open>Two frames, the first one row of two pixels, the second three rows of one pixel.\<close>

theorem write_gif_first_frame_dimensions_witness:
  "\<exists>pb comps. build_pal_bytes [(1, 2, 3)] = Inr pb
           \<and> compressed_as [ [ [1, 2] ], [ [3], [4], [5] ] ] comps
           \<and> write_gif [ [ [1, 2] ], [ [3], [4], [5] ] ] [(1, 2, 3)] 83 0 =
               (None, Some (gif_preamble 2 1 pb
                            @ concat (map (frame_block 2 1 83 0) comps)
                            @ [59]))"
  using write_gif_first_frame_dimensions
          [of "[ [ [1, 2] ], [ [3], [4], [5] ] ]" "[(1, 2, 3)]" 83 0]
  by (simp add: rgb_ok_def u8_def u16_def pixels_ok_def numeral_2_eq_2)

text \<open>
  Claim C7, amended. Nothing is checked before the file is opened. With everything else
  in range, a pixel outside \<open>[0, 256)\<close> makes \<^verbatim>\<open>lzw_encode\<close> raise ValueError when the
  first frame that holds such a pixel is compressed; by then the file holds the preamble,
  the blocks of the frames before it and the head of that frame. The pixel is never
  wrapped or truncated.
\<close>

theorem write_gif_bad_pixel:
  assumes "frames \<noteq> []" "hd frames \<noteq> []"
    and "length (hd (hd frames)) \<le> 65535" "length (hd frames) \<le> 65535"
    and "list_all rgb_ok (take 256 palette)" "u16 d" "u8 t"
    and "\<not> list_all pixels_ok frames"
  shows "\<exists>pb good bad rest comps. build_pal_bytes palette = Inr pb
           \<and> frames = good @ bad # rest \<and> compressed_as good comps \<and> \<not> pixels_ok bad
           \<and> write_gif frames palette d t =
               (Some ValueError_byte,
                Some (gif_preamble (length (hd (hd frames))) (length (hd frames)) pb
                      @ concat (map (frame_block (length (hd (hd frames)))
                                       (length (hd frames)) d t) comps)
                      @ frame_head (length (hd (hd frames))) (length (hd frames)) d t))"
proof -
  from write_gif_valid_eq [OF assms(1-5), of d t] obtain pb where
    pb: "build_pal_bytes palette = Inr pb" and
    eq: "write_gif frames palette d t =
               (case write_frames (length (hd (hd frames))) (length (hd frames)) d t
                       (gif_preamble (length (hd (hd frames))) (length (hd frames)) pb) frames of
                  (Some e, f) \<Rightarrow> (Some e, Some f)
                | (None, f) \<Rightarrow> (None, Some (f @ [59])))"
    by blast
  from first_bad_frame [OF assms(8)] obtain good bad rest comps where
    sp: "frames = good @ bad # rest" "compressed_as good comps" "\<not> pixels_ok bad"
    by blast
  from sp(3) have "lzw_encode (concat bad) 8 = Inl ValueError_byte"
    by (intro lzw_encode_bad) (simp_all add: pixels_ok_concat)
  from write_frames_fail [OF assms(6,7,3,4) this sp(2), of _ rest]
  have "write_gif frames palette d t =
               (Some ValueError_byte,
                Some (gif_preamble (length (hd (hd frames))) (length (hd frames)) pb
                      @ concat (map (frame_block (length (hd (hd frames)))
                                       (length (hd frames)) d t) comps)
                      @ frame_head (length (hd (hd frames))) (length (hd frames)) d t))"
    unfolding eq by (simp add: sp(1) [symmetric])
  with pb sp show ?thesis by blast
qed

text \<open>A valid frame followed by a frame with the pixel 300.\<close>

theorem write_gif_bad_pixel_witness:
  "\<exists>pb good bad rest comps. build_pal_bytes [] = Inr pb
           \<and> [ [ [0] ], [ [300] ] ] = good @ bad # rest \<and> compressed_as good comps
           \<and> \<not> pixels_ok bad
           \<and> write_gif [ [ [0] ], [ [300] ] ] [] 83 0 =
               (Some ValueError_byte,
                Some (gif_preamble 1 1 pb
                      @ concat (map (frame_block 1 1 83 0) comps)
                      @ frame_head 1 1 83 0))"
  using write_gif_bad_pixel [of "[ [ [0] ], [ [300] ] ]" "[]" 83 0]
  by (simp add: rgb_ok_def u8_def u16_def pixels_ok_def)

lemma lzw_300: "lzw_encode [300] 8 = Inl ValueError_byte"
  by (rule lzw_encode_bad) simp_all

text \<open>
  Claim C7 as stated fails: the pixel 300 is rejected only after 820 bytes have been
  written, and the pixel 7 is accepted with a palette of one entry.
\<close>

theorem write_gif_late_rejection_counterexample:
  "write_gif [ [ [300] ] ] [] 83 0 =
     (Some ValueError_byte,
      Some (gif_preamble 1 1 (replicate 768 0)
            @ [0x21, 0xF9, 0x04, 0x02, 83, 0, 0, 0, 0x2C, 0, 0, 0, 0, 1, 0, 1, 0, 0, 0, 8]))
   \<and> fst (write_gif [ [ [7] ] ] [(1, 2, 3)] 83 0) = None"
proof -
  have "lzw_encode [7] 8 = Inr [0, 15, 4, 4]" by code_simp
  then show ?thesis
    by (simp add: write_gif_eq build_pal_bytes_eq rgb_ok_def write_body_eq write_frame_eq
          lzw_300 frame_block_def frame_head_def le16_def u16_def u8_def)
qed

lemma write_frames_Some:
  assumes "W \<le> 65535" "H \<le> 65535"
  shows "write_frames W H d t f frames = (Some e, f') \<Longrightarrow>
     (\<not> u16 d \<and> e = StructError \<and> f' = f @ [0x21, 0xF9, 0x04, 0x02])
     \<or> (u16 d \<and> \<not> u8 t \<and> e = ValueError_byte
          \<and> f' = f @ [0x21, 0xF9, 0x04, 0x02] @ le16 (nat d))
     \<or> (u16 d \<and> u8 t
          \<and> (\<exists>good bad rest comps. frames = good @ bad # rest \<and> compressed_as good comps
                 \<and> lzw_encode (concat bad) 8 = Inl e
                 \<and> f' = f @ concat (map (frame_block W H d t) comps) @ frame_head W H d t))"
proof (induction frames arbitrary: f)
  case Nil
  then show ?case by simp
next
  case (Cons frame frames)
  show ?case
  proof (cases "u16 d \<and> u8 t")
    case False
    with Cons.prems show ?thesis
      by (auto simp: write_frame_eq split: if_splits)
  next
    case True
    show ?thesis
    proof (cases "lzw_encode (concat frame) 8")
      case (Inl e1)
      with True assms Cons.prems have "e = e1" "f' = f @ frame_head W H d t"
        by (simp_all add: write_frame_eq)
      with Inl have "frame # frames = [] @ frame # frames \<and> compressed_as [] []
                 \<and> lzw_encode (concat frame) 8 = Inl e
                 \<and> f' = f @ concat (map (frame_block W H d t) []) @ frame_head W H d t"
        by (simp add: compressed_as_def)
      then have "\<exists>good bad rest comps. frame # frames = good @ bad # rest
                 \<and> compressed_as good comps \<and> lzw_encode (concat bad) 8 = Inl e
                 \<and> f' = f @ concat (map (frame_block W H d t) comps) @ frame_head W H d t"
        by blast
      with True show ?thesis by blast
    next
      case (Inr c)
      with True assms Cons.prems
      have "write_frames W H d t (f @ frame_block W H d t c) frames = (Some e, f')"
        by (simp add: write_frame_eq)
      from Cons.IH [OF this] True obtain good bad rest comps where
        h: "frames = good @ bad # rest" "compressed_as good comps"
           "lzw_encode (concat bad) 8 = Inl e"
           "f' = (f @ frame_block W H d t c) @ concat (map (frame_block W H d t) comps)
                   @ frame_head W H d t"
        by blast
      have "frame # frames = (frame # good) @ bad # rest \<and> compressed_as (frame # good) (c # comps)
                 \<and> lzw_encode (concat bad) 8 = Inl e
                 \<and> f' = f @ concat (map (frame_block W H d t) (c # comps)) @ frame_head W H d t"
        using h Inr by (simp add: compressed_as_def)
      then have "\<exists>good bad rest comps. frame # frames = good @ bad # rest
                 \<and> compressed_as good comps \<and> lzw_encode (concat bad) 8 = Inl e
                 \<and> f' = f @ concat (map (frame_block W H d t) comps) @ frame_head W H d t"
        by blast
      with True show ?thesis by blast
    qed
  qed
qed

text \<open>
  Claim C8, amended. Nothing is discarded or truncated when \<^verbatim>\<open>write_gif\<close> fails: the
  exception and the sink are determined by the place of the failure, and the sink holds
  every byte written before it. An empty first frame or a palette channel out of range
  fails before the file is opened and leaves the sink untouched. Dimensions that do not
  fit in 16 bits leave the file with the signature alone. Otherwise the failure is in
  the first frame when the duration or the transparent index is out of range, and else
  in the first frame that \<^verbatim>\<open>lzw_encode\<close> rejects; the file then holds the preamble,
  the complete blocks of the frames before the failing one, and what the failing frame
  wrote: the four bytes that open its control block, then the delay if it was in range,
  or its whole head if the failure came from the encoder.
\<close>

theorem write_gif_failure_leaves_partial_file:
  assumes "write_gif frames palette d t = (Some e, sink)"
  shows "frames \<noteq> [] \<and>
     (if hd frames = [] then e = IndexError \<and> sink = None
      else (case build_pal_bytes palette of
              Inl e' \<Rightarrow> e = e' \<and> sink = None
            | Inr pb \<Rightarrow>
                (if \<not> (length (hd (hd frames)) \<le> 65535 \<and> length (hd frames) \<le> 65535)
                 then e = StructError \<and> sink = Some gif_signature
                 else (\<not> u16 d \<and> e = StructError
                       \<and> sink = Some (gif_preamble (length (hd (hd frames))) (length (hd frames)) pb
                                      @ [0x21, 0xF9, 0x04, 0x02]))
                   \<or> (u16 d \<and> \<not> u8 t \<and> e = ValueError_byte
                       \<and> sink = Some (gif_preamble (length (hd (hd frames))) (length (hd frames)) pb
                                      @ [0x21, 0xF9, 0x04, 0x02] @ le16 (nat d)))
                   \<or> (u16 d \<and> u8 t
                       \<and> (\<exists>good bad rest comps. frames = good @ bad # rest
                              \<and> compressed_as good comps
                              \<and> lzw_encode (concat bad) 8 = Inl e
                              \<and> sink = Some (gif_preamble (length (hd (hd frames)))
                                               (length (hd frames)) pb
                                             @ concat (map (frame_block (length (hd (hd frames)))
                                                              (length (hd frames)) d t) comps)
                                             @ frame_head (length (hd (hd frames)))
                                                 (length (hd frames)) d t))))))"
proof -
  from assms obtain frame0 rest where fr: "frames = frame0 # rest"
    by (cases frames) (simp_all add: write_gif_def)
  show ?thesis
  proof (cases frame0)
    case Nil
    with assms fr show ?thesis by (auto simp: write_gif_def)
  next
    case (Cons row0 rows0)
    let ?W = "length row0" and ?H = "Suc (length rows0)"
    have hd: "hd frames \<noteq> []" "length (hd (hd frames)) = ?W" "length (hd frames) = ?H"
      by (simp_all add: fr Cons)
    show ?thesis
    proof (cases "build_pal_bytes palette")
      case (Inl e')
      with assms have "e = e' \<and> sink = None" unfolding fr Cons write_gif_eq by auto
      with Inl hd fr show ?thesis by simp
    next
      case (Inr pb)
      show ?thesis
      proof (cases "?W \<le> 65535 \<and> ?H \<le> 65535")
        case False
        with assms Inr have "e = StructError \<and> sink = Some gif_signature"
          unfolding fr Cons write_gif_eq write_body_eq by auto
        with Inr hd fr False show ?thesis by simp
      next
        case True
        obtain e1 f1 where w: "write_frames ?W ?H d t (gif_preamble ?W ?H pb) frames = (e1, f1)"
          by (cases "write_frames ?W ?H d t (gif_preamble ?W ?H pb) frames")
        from assms Inr True w have "e1 = Some e \<and> sink = Some f1"
          unfolding fr [symmetric] write_gif_eq [of row0 rows0 rest, folded Cons, folded fr]
            write_body_eq
          by (cases e1) auto
        with w have w': "write_frames ?W ?H d t (gif_preamble ?W ?H pb) frames = (Some e, f1)"
          and sink: "sink = Some f1" by simp_all
        from True have W: "?W \<le> 65535" and H: "?H \<le> 65535" by simp_all
        from write_frames_Some [OF W H w'] Inr hd fr True sink show ?thesis
          by simp
      qed
    qed
  qed
qed

lemma write_gif_run_duration:
  "write_gif [ [ [0] ] ] [] 70000 0 =
     (Some StructError, Some (gif_preamble 1 1 (replicate 768 0) @ [0x21, 0xF9, 0x04, 0x02]))"
  by (simp add: write_gif_eq build_pal_bytes_empty write_body_eq write_frame_eq u16_def)

text \<open>A duration that does not fit in 16 bits: the file keeps the 804 bytes written, and
  the theorem says which bytes they are.\<close>

theorem write_gif_failure_leaves_partial_file_witness:
  "write_gif [ [ [0] ] ] [] 70000 0 =
     (Some StructError, Some (gif_preamble 1 1 (replicate 768 0) @ [0x21, 0xF9, 0x04, 0x02]))
   \<and> build_pal_bytes [] = Inr (replicate 768 0)
   \<and> \<not> u16 70000"
  using write_gif_failure_leaves_partial_file [OF write_gif_run_duration] write_gif_run_duration
  by (simp add: build_pal_bytes_empty u16_def)

text \<open>
  Claim C8 as stated fails: a transparent index of 256 raises after the file has been
  opened, and the file is left with the preamble and the first six bytes of the frame.
\<close>

theorem write_gif_partial_file_counterexample:
  "write_gif [ [ [0] ] ] [] 83 256 =
     (Some ValueError_byte,
      Some (gif_preamble 1 1 (replicate 768 0) @ [0x21, 0xF9, 0x04, 0x02, 83, 0]))"
  by (simp add: write_gif_eq build_pal_bytes_empty write_body_eq write_frame_eq u16_def u8_def
        le16_def)

text \<open>
  Claim C9. Only \<^verbatim>\<open>palette[:256]\<close> is read: a palette of any length gives exactly the
  result of its first 256 entries, and entries past the 256th are never looked at, so they
  raise nothing. Whenever the first 256 entries are byte triples and the other inputs are
  in range, \<^verbatim>\<open>write_gif\<close> succeeds, and the 768 bytes that follow the screen descriptor
  in the file are the colour table: the bytes of those entries, then zeros.
\<close>

theorem write_gif_palette_truncated:
  "write_gif frames palette d t = write_gif frames (take 256 palette) d t
   \<and> color_table palette = color_table (take 256 palette)
   \<and> length (color_table palette) = 768
   \<and> (frames \<noteq> [] \<and> hd frames \<noteq> []
        \<and> length (hd (hd frames)) \<le> 65535 \<and> length (hd frames) \<le> 65535
        \<and> list_all rgb_ok (take 256 palette) \<and> u16 d \<and> u8 t \<and> list_all pixels_ok frames
      \<longrightarrow> (\<exists>comps. compressed_as frames comps
             \<and> write_gif frames palette d t =
                 (None, Some (gif_signature @ le16 (length (hd (hd frames)))
                              @ le16 (length (hd frames)) @ [0xF7, 0, 0]
                              @ color_table palette
                              @ netscape_ext
                              @ concat (map (frame_block (length (hd (hd frames)))
                                               (length (hd frames)) d t) comps)
                              @ [59]))))"
proof (intro conjI impI)
  have tk: "build_pal_bytes (take 256 palette) = build_pal_bytes palette"
    by (simp add: build_pal_bytes_def)
  show "write_gif frames palette d t = write_gif frames (take 256 palette) d t"
    unfolding write_gif_def tk by (rule refl)
  show "color_table palette = color_table (take 256 palette)"
    by (simp add: color_table_def)
  show "length (color_table palette) = 768"
    by (simp add: color_table_def length_rgb_concat)
next
  assume h: "frames \<noteq> [] \<and> hd frames \<noteq> []
        \<and> length (hd (hd frames)) \<le> 65535 \<and> length (hd frames) \<le> 65535
        \<and> list_all rgb_ok (take 256 palette) \<and> u16 d \<and> u8 t \<and> list_all pixels_ok frames"
  let ?W = "length (hd (hd frames))" and ?H = "length (hd frames)"
  from h have a: "frames \<noteq> []" "hd frames \<noteq> []" "?W \<le> 65535" "?H \<le> 65535"
    "list_all rgb_ok (take 256 palette)" "u16 d" "u8 t" "list_all pixels_ok frames"
    by simp_all
  from write_gif_valid_eq [OF a(1-5), of d t] obtain pb where
    pb: "build_pal_bytes palette = Inr pb" and
    eq: "write_gif frames palette d t =
               (case write_frames ?W ?H d t (gif_preamble ?W ?H pb) frames of
                  (Some e, f) \<Rightarrow> (Some e, Some f)
                | (None, f) \<Rightarrow> (None, Some (f @ [59])))"
    by blast
  from pb a(5) have pbc: "pb = color_table palette"
    by (simp add: build_pal_bytes_eq color_table_def)
  from compressed_as_exists [OF a(8)] obtain comps where c: "compressed_as frames comps"
    by blast
  have "write_gif frames palette d t =
          (None, Some (gif_signature @ le16 ?W @ le16 ?H @ [0xF7, 0, 0]
                       @ color_table palette @ netscape_ext
                       @ concat (map (frame_block ?W ?H d t) comps) @ [59]))"
    unfolding eq using write_frames_ok [OF a(6,7,3,4) c]
    by (simp add: gif_preamble_def pbc)
  with c show "\<exists>comps. compressed_as frames comps
             \<and> write_gif frames palette d t =
                 (None, Some (gif_signature @ le16 ?W @ le16 ?H @ [0xF7, 0, 0]
                              @ color_table palette @ netscape_ext
                              @ concat (map (frame_block ?W ?H d t) comps) @ [59]))"
    by blast
qed

text \<open>A palette of 300 entries: the file carries the first 256 and no padding.\<close>

theorem write_gif_palette_truncated_witness:
  "list_all rgb_ok (take 256 (replicate 300 (1, 2, 3)))
   \<and> color_table (replicate 300 (1, 2, 3)) = concat (replicate 256 [1, 2, 3])
   \<and> (\<exists>comps. compressed_as [ [ [0] ] ] comps
         \<and> write_gif [ [ [0] ] ] (replicate 300 (1, 2, 3)) 83 0 =
             (None, Some (gif_signature @ le16 1 @ le16 1 @ [0xF7, 0, 0]
                          @ color_table (replicate 300 (1, 2, 3))
                          @ netscape_ext
                          @ concat (map (frame_block 1 1 83 0) comps)
                          @ [59])))"
proof -
  let ?frames = "[ [ [0::int] ] ]" and ?p = "replicate 300 (1::int, 2::int, 3::int)"
  have 1: "list_all rgb_ok (take 256 ?p)"
    by (simp add: rgb_ok_def u8_def list_all_iff)
  have 2: "color_table ?p = concat (replicate 256 [1, 2, 3])"
    by (simp add: color_table_def rgb_bytes_def map_replicate_const)
  have hyps: "?frames \<noteq> [] \<and> hd ?frames \<noteq> []
        \<and> length (hd (hd ?frames)) \<le> 65535 \<and> length (hd ?frames) \<le> 65535
        \<and> list_all rgb_ok (take 256 ?p) \<and> u16 83 \<and> u8 0 \<and> list_all pixels_ok ?frames"
    using 1 by (simp add: u8_def u16_def pixels_ok_def)
  from write_gif_palette_truncated [of ?frames ?p 83 0, THEN conjunct2, THEN conjunct2,
         THEN conjunct2, THEN mp, OF hyps]
  have "\<exists>comps. compressed_as ?frames comps
         \<and> write_gif ?frames ?p 83 0 =
             (None, Some (gif_signature @ le16 1 @ le16 1 @ [0xF7, 0, 0]
                          @ color_table ?p @ netscape_ext
                          @ concat (map (frame_block 1 1 83 0) comps) @ [59]))"
    by simp
  with 1 2 show ?thesis by blast
qed

end
